theory Spec2Isabelle
  imports Main
begin

section \<open>Python values, exceptions and strings\<close>

text \<open>
  The subsystem recovers from a context-window overflow of a language-model call:
  \<^verbatim>\<open>token_error_analyzer.py\<close> reads the limit out of the provider's error text,
  \<^verbatim>\<open>llm_compression_engine.py\<close> performs one summarisation pass, and
  \<^verbatim>\<open>compression_service.py\<close> orchestrates classification, segmentation, the
  compression rounds and the emergency fallback.

  A Python \<^verbatim>\<open>str\<close> is modelled as a \<^typ>\<open>string\<close>, one \<^typ>\<open>char\<close> per code point, so
  the model covers texts whose code points lie below 256; \<^verbatim>\<open>len\<close> is \<^const>\<open>length\<close>.
  Python integers are unbounded and modelled as \<^typ>\<open>int\<close>. The values a message
  dictionary holds under its keys are the scalars below.
\<close>

datatype pyval = PyNone | PyBool bool | PyInt int | PyStr string

text \<open>
  The exceptions (subclasses of \<^verbatim>\<open>Exception\<close>) the modelled code can raise, and
  \<open>Failure\<close> for whatever an injected collaborator (analyzer, engine, model call) raises.
\<close>

datatype exn = KeyError string | TypeError | ValueError | OverflowError | Failure string

fun str_of_nat :: "nat \<Rightarrow> string" where
  "str_of_nat n =
     (if n < 10 then [char_of (48 + n)]
      else str_of_nat (n div 10) @ [char_of (48 + n mod 10)])"

declare str_of_nat.simps [simp del]

definition str_of_int :: "int \<Rightarrow> string" where
  "str_of_int i = (if i < 0 then CHR ''-'' # str_of_nat (nat (- i)) else str_of_nat (nat i))"

text \<open>\<^verbatim>\<open>str(v)\<close>, as an f-string applies it to a value it interpolates.\<close>

fun py_str :: "pyval \<Rightarrow> string" where
  "py_str PyNone = ''None''"
| "py_str (PyBool b) = (if b then ''True'' else ''False'')"
| "py_str (PyInt i) = str_of_int i"
| "py_str (PyStr s) = s"

text \<open>
  The slice \<^verbatim>\<open>s[:n]\<close>: the first \<open>n\<close> characters for \<open>n \<ge> 0\<close>, and all but the last
  \<open>-n\<close> characters for a negative \<open>n\<close>.
\<close>

definition py_slice_to :: "string \<Rightarrow> int \<Rightarrow> string" where
  "py_slice_to s n = (if 0 \<le> n then take (nat n) s else take (length s - nat (- n)) s)"

section \<open>Token analyzer (\<^verbatim>\<open>token_error_analyzer.py\<close>)\<close>

subsection \<open>The regular expressions of \<^verbatim>\<open>parse_error_info\<close>\<close>

text \<open>
  The four patterns are built from three constructs only: a literal character, the
  capturing group \<^verbatim>\<open>(\d+)\<close> (greedy, at least one digit) and \<^verbatim>\<open>.*?\<close> (lazy, any
  characters but a newline). \<^verbatim>\<open>re.search\<close> is a backtracking matcher; \<open>rx_match\<close>
  explores the alternatives in the same order (a greedy group tries its longest run
  first, a lazy one its shortest), and \<open>rx_search\<close> tries the start positions from left
  to right. The result is the list of captured groups. With \<^verbatim>\<open>re.IGNORECASE\<close> a
  literal matches both cases of a letter.
\<close>

datatype rx = Lit char | Digits | LazyDot

definition lower_ascii :: "char \<Rightarrow> char" where
  "lower_ascii c =
     (let n = (of_char c :: nat) in if 65 \<le> n \<and> n \<le> 90 then char_of (n + 32) else c)"

definition is_digit :: "char \<Rightarrow> bool" where
  "is_digit c = (let n = (of_char c :: nat) in 48 \<le> n \<and> n \<le> 57)"

fun first_some :: "'a option list \<Rightarrow> 'a option" where
  "first_some [] = None"
| "first_some (None # xs) = first_some xs"
| "first_some (Some x # xs) = Some x"

text \<open>
  The ways \<^verbatim>\<open>(\d+)\<close> can match at the head of a text, longest first: each is the
  captured run and the rest of the text.
\<close>

fun digit_runs :: "string \<Rightarrow> string \<Rightarrow> (string \<times> string) list" where
  "digit_runs acc [] = []"
| "digit_runs acc (x # xs) =
     (if is_digit x then digit_runs (acc @ [x]) xs @ [(acc @ [x], xs)] else [])"

fun rx_match :: "rx list \<Rightarrow> string \<Rightarrow> string list option" where
  "rx_match [] s = Some []"
| "rx_match (Lit c # p) [] = None"
| "rx_match (Lit c # p) (x # xs) =
     (if lower_ascii x = lower_ascii c then rx_match p xs else None)"
| "rx_match (Digits # p) s =
     first_some (map (\<lambda>(g, rest). map_option ((#) g) (rx_match p rest)) (digit_runs [] s))"
| "rx_match (LazyDot # p) [] = rx_match p []"
| "rx_match (LazyDot # p) (x # xs) =
     (case rx_match p (x # xs) of
        Some gs \<Rightarrow> Some gs
      | None \<Rightarrow> if x = CHR ''\<newline>'' then None else rx_match (LazyDot # p) xs)"

fun rx_search :: "rx list \<Rightarrow> string \<Rightarrow> string list option" where
  "rx_search p [] = rx_match p []"
| "rx_search p (x # xs) =
     (case rx_match p (x # xs) of Some gs \<Rightarrow> Some gs | None \<Rightarrow> rx_search p xs)"

definition lits :: "string \<Rightarrow> rx list" where
  "lits s = map Lit s"

text \<open>
  \<^verbatim>\<open>maximum context length is (\d+) tokens.*?(\d+) tokens\<close>,
  \<^verbatim>\<open>token limit.*?(\d+).*?current.*?(\d+)\<close>,
  \<^verbatim>\<open>context length exceeded.*?(\d+).*?(\d+)\<close> and
  \<^verbatim>\<open>Request too large.*?(\d+).*?(\d+)\<close>, in the order of the source.
\<close>

definition patterns :: "rx list list" where
  "patterns =
     [lits ''maximum context length is '' @ [Digits] @ lits '' tokens'' @ [LazyDot, Digits]
        @ lits '' tokens'',
      lits ''token limit'' @ [LazyDot, Digits, LazyDot] @ lits ''current'' @ [LazyDot, Digits],
      lits ''context length exceeded'' @ [LazyDot, Digits, LazyDot, Digits],
      lits ''Request too large'' @ [LazyDot, Digits, LazyDot, Digits]]"

text \<open>
  \<^verbatim>\<open>int(match.group(k))\<close> on a run of decimal digits. CPython refuses to convert a
  string of more than \<^verbatim>\<open>sys.get_int_max_str_digits()\<close> digits, 4300 by default, leading
  zeros counted, and raises \<^verbatim>\<open>ValueError\<close>.
\<close>

definition int_of_digits :: "string \<Rightarrow> int" where
  "int_of_digits s = foldl (\<lambda>a c. 10 * a + (int (of_char c) - 48)) 0 s"

definition int_of_str :: "string \<Rightarrow> exn + int" where
  "int_of_str s = (if length s > 4300 then Inl ValueError else Inr (int_of_digits s))"

text \<open>The loop over the patterns: the groups of the first pattern that matches.\<close>

fun first_pattern_match :: "rx list list \<Rightarrow> string \<Rightarrow> string list option" where
  "first_pattern_match [] error_message = None"
| "first_pattern_match (pattern # ps) error_message =
     (case rx_search pattern error_message of
        Some gs \<Rightarrow> Some gs
      | None \<Rightarrow> first_pattern_match ps error_message)"

definition parse_error_info :: "string \<Rightarrow> exn + int \<times> int" where
  "parse_error_info error_message =
     (case first_pattern_match patterns error_message of
        Some gs \<Rightarrow>
          (case int_of_str (gs ! 0) of
             Inl e \<Rightarrow> Inl e
           | Inr num1 \<Rightarrow>
               (case int_of_str (gs ! 1) of
                  Inl e \<Rightarrow> Inl e
                | Inr num2 \<Rightarrow>
                    (let max_tokens = min num1 num2;
                         current_tokens = max num1 num2
                     in Inr (max_tokens, current_tokens))))
      | None \<Rightarrow> Inr (4096, 5000))"

definition estimate_tokens :: "string \<Rightarrow> int" where
  "estimate_tokens text = (if text = [] then 0 else int (length text) div 3)"

text \<open>
  The analyzer as the service sees it (the \<^verbatim>\<open>TokenAnalyzer\<close> protocol): either
  method of an implementation may raise. \<open>TokenErrorAnalyzer\<close> raises from
  \<open>parse_error_info\<close> on an over-long number only, and never from \<open>estimate_tokens\<close>.
\<close>

record analyzer =
  an_parse_error_info :: "string \<Rightarrow> exn + int \<times> int"
  an_estimate_tokens :: "string \<Rightarrow> exn + int"

definition TokenErrorAnalyzer :: analyzer where
  "TokenErrorAnalyzer =
     \<lparr>an_parse_error_info = parse_error_info,
      an_estimate_tokens = (\<lambda>text. Inr (estimate_tokens text))\<rparr>"

section \<open>Messages\<close>

text \<open>
  A message is a dictionary. The record has one optional field per key the code reads
  or writes (\<open>None\<close>: the key is absent), \<open>msg_compressed\<close> and
  \<open>msg_compression_timestamp\<close> standing for the keys \<^verbatim>\<open>_compressed\<close> and
  \<^verbatim>\<open>_compression_timestamp\<close>, and the remaining keys in \<open>msg_extra\<close>. A role, when
  present, is a string.
\<close>

record message =
  msg_role :: "string option"
  msg_content :: "pyval option"
  msg_tool_call_id :: "pyval option"
  msg_compressed :: "pyval option"
  msg_compression_timestamp :: "pyval option"
  msg_extra :: "(string \<times> pyval) list"

text \<open>\<^verbatim>\<open>d.get(key, default)\<close> on the field of a key.\<close>

definition get :: "'a option \<Rightarrow> 'a \<Rightarrow> 'a" where
  "get entry dflt = (case entry of None \<Rightarrow> dflt | Some v \<Rightarrow> v)"

text \<open>A dictionary literal with the keys \<^verbatim>\<open>role\<close> and \<^verbatim>\<open>content\<close> only.\<close>

definition role_content_dict :: "string \<Rightarrow> string \<Rightarrow> message" where
  "role_content_dict r c =
     \<lparr>msg_role = Some r, msg_content = Some (PyStr c), msg_tool_call_id = None,
      msg_compressed = None, msg_compression_timestamp = None, msg_extra = []\<rparr>"

section \<open>Compression engine (\<^verbatim>\<open>llm_compression_engine.py\<close>)\<close>

text \<open>
  One call of \<^verbatim>\<open>LLM.ask\<close>: it raises, or returns the response dictionary.
\<close>

type_synonym llm = "message list \<Rightarrow> exn + message"

definition get_compression_prompt :: "string \<Rightarrow> string \<Rightarrow> string" where
  \<open>get_compression_prompt summary content =
      ''\<newline>'' @
      ''Please intelligently compress and summarize the following content, following these important rules:\<newline>'' @
      ''\<newline>'' @
      ''1. **JSON Structure Protection**: If content contains JSON format data (such as plans, steps, tool_calls, etc.), the JSON structure and all field values must be completely preserved\<newline>'' @
      ''EXAMPLE JSON:\<newline>'' @
      ''{\<newline>'' @
      ''    "message": "User response message",\<newline>'' @
      ''    "goal": "Goal description",\<newline>'' @
      ''    "title": "Plan title",\<newline>'' @
      ''    "steps": [\<newline>'' @
      ''        {\<newline>'' @
      ''            "id": "1",\<newline>'' @
      ''            "description": "Step 1 description"\<newline>'' @
      ''        }\<newline>'' @
      ''    ]\<newline>'' @
      ''}\<newline>'' @
      ''You must return the JSON structure exactly as it is, without any modification or addition.\<newline>'' @
      ''\<newline>'' @
      ''2. **Key Information Retention**: Maintain accuracy and completeness of task objectives, execution status, and tool call results\<newline>'' @
      ''3. **Descriptive Compression**: Only compress and simplify descriptive text, preserve all structured data\<newline>'' @
      ''4. **Logical Coherence**: Ensure compressed content can support subsequent business logic processing\<newline>'' @
      ''\<newline>'' @
      ''Current accumulated summary:\<newline>'' @
      (if summary \<noteq> [] then summary else ''(First compression, no historical summary)'') @
      ''\<newline>'' @
      ''\<newline>'' @
      ''New content to be compressed:\<newline>'' @
      content @
      ''\<newline>'' @
      ''\<newline>'' @
      ''Please return the compressed content summary, ensuring all JSON structures and key business information are preserved:\<newline>''\<close>

definition fallback_compression :: "string \<Rightarrow> string \<Rightarrow> int \<Rightarrow> string" where
  "fallback_compression summary content max_tokens =
     (let target_length = max_tokens * 3 in
      if summary \<noteq> [] then
        (let available_for_content = target_length - int (length summary) - 100 in
         if available_for_content > 0 then
           (let truncated_content = py_slice_to content available_for_content
            in summary @ ''\<newline>\<newline>[New Content Summary] '' @ truncated_content @ ''...'')
         else py_slice_to summary target_length @ ''...'')
      else py_slice_to content target_length @ ''...'')"

text \<open>The two messages handed to the model call.\<close>

definition compression_request :: "string \<Rightarrow> message list" where
  "compression_request compression_prompt =
     [role_content_dict ''system''
        ''You are a professional content compression assistant. Please perform intelligent compression according to user requirements.'',
      role_content_dict ''user'' compression_prompt]"

text \<open>
  \<^verbatim>\<open>compress_content\<close>: everything between \<^verbatim>\<open>try\<close> and \<^verbatim>\<open>except Exception\<close>
  that raises leads to the fallback. That is the model call itself, and \<^verbatim>\<open>len\<close> of
  a response content that is not a string (the log line evaluates it).
\<close>

definition compress_content :: "llm \<Rightarrow> string \<Rightarrow> string \<Rightarrow> int \<Rightarrow> string" where
  "compress_content ask summary content max_tokens =
     (let compression_prompt = get_compression_prompt summary content in
      case ask (compression_request compression_prompt) of
        Inl e \<Rightarrow> fallback_compression summary content max_tokens
      | Inr response \<Rightarrow>
          (case get (msg_content response) (PyStr '''') of
             PyStr compressed_result \<Rightarrow> compressed_result
           | _ \<Rightarrow> fallback_compression summary content max_tokens))"

text \<open>
  The engine as the service sees it (the \<^verbatim>\<open>CompressionEngine\<close> protocol). The first
  argument counts the calls made before this one, so an engine may answer each call
  differently; an injected engine may raise. \<open>LlmCompressionEngine\<close> never does.
\<close>

type_synonym engine = "nat \<Rightarrow> string \<Rightarrow> string \<Rightarrow> int \<Rightarrow> exn + string"

definition LlmCompressionEngine :: "(nat \<Rightarrow> llm) \<Rightarrow> engine" where
  "LlmCompressionEngine asks =
     (\<lambda>n summary content max_tokens. Inr (compress_content (asks n) summary content max_tokens))"

section \<open>Compression service (\<^verbatim>\<open>compression_service.py\<close>)\<close>

subsection \<open>The budget: \<^verbatim>\<open>int(max_tokens * self.SYSTEM_PROMPT_RATIO)\<close>\<close>

text \<open>
  \<^verbatim>\<open>SYSTEM_PROMPT_RATIO\<close> is the float \<open>0.25\<close>, so the product converts the integer
  to a double first: the nearest number with 53 significant bits, ties to the even
  significand, and \<^verbatim>\<open>OverflowError\<close> beyond the largest finite double. The double of
  an integer is integral, and \<open>float_of_magnitude\<close> gives it for a non-negative integer
  (the double of \<open>- n\<close> is the negative of the double of \<open>n\<close>). Multiplying by \<open>0.25\<close> is
  exact, and \<^verbatim>\<open>int\<close> truncates towards zero.
\<close>

function bit_length :: "int \<Rightarrow> nat" where
  "bit_length n = (if n \<le> 0 then 0 else Suc (bit_length (n div 2)))"
  by pat_completeness auto
termination
  by (relation "measure nat") auto

declare bit_length.simps [simp del]

definition float_of_magnitude :: "int \<Rightarrow> exn + int" where
  "float_of_magnitude n =
     (let e = bit_length n - 53;
          q = n div 2 ^ e;
          r = n mod 2 ^ e;
          q' = (if 2 * r > 2 ^ e \<or> (2 * r = 2 ^ e \<and> odd q) then q + 1 else q);
          x = q' * 2 ^ e
      in if x \<ge> 2 ^ 1024 then Inl OverflowError else Inr x)"

definition int_of_times_ratio :: "int \<Rightarrow> exn + int" where
  "int_of_times_ratio n =
     (case float_of_magnitude \<bar>n\<bar> of
        Inl e \<Rightarrow> Inl e
      | Inr x \<Rightarrow> Inr (sgn n * (x div 4)))"

definition MAX_COMPRESSION_ROUNDS :: nat where
  "MAX_COMPRESSION_ROUNDS = 3"

subsection \<open>Classification\<close>

definition should_compress_message :: "message \<Rightarrow> bool" where
  "should_compress_message message =
     (let role = get (msg_role message) '''' in role \<in> set [''user'', ''tool''])"

fun separate_loop ::
  "message list \<Rightarrow> message list \<times> message list \<times> message list
     \<Rightarrow> message list \<times> message list \<times> message list" where
  "separate_loop [] acc = acc"
| "separate_loop (msg # msgs) (system_messages, compressible_messages, protected_messages) =
     (let role = get (msg_role msg) '''' in
      if role = ''system'' then
        separate_loop msgs (system_messages @ [msg], compressible_messages, protected_messages)
      else if should_compress_message msg then
        separate_loop msgs (system_messages, compressible_messages @ [msg], protected_messages)
      else
        separate_loop msgs (system_messages, compressible_messages, protected_messages @ [msg]))"

definition separate_messages_by_compression_policy ::
  "message list \<Rightarrow> message list \<times> message list \<times> message list" where
  "separate_messages_by_compression_policy messages = separate_loop messages ([], [], [])"

subsection \<open>Segmentation\<close>

text \<open>
  \<^verbatim>\<open>CompressionSegment\<close>. Its \<^verbatim>\<open>message_types\<close> is \<^verbatim>\<open>list(set(current_types))\<close>, a
  list in no specified order, and is modelled as the set.
\<close>

record segment =
  seg_content :: string
  seg_estimated_tokens :: int
  seg_message_types :: "string set"

definition format_message_content :: "message \<Rightarrow> string" where
  "format_message_content message =
     (let role = get (msg_role message) ''unknown'';
          content = get (msg_content message) (PyStr '''')
      in if role = ''tool'' then
           (let tool_call_id = get (msg_tool_call_id message) (PyStr '''')
            in ''[Tool call result '' @ py_str tool_call_id @ '']: '' @ py_str content)
         else ''['' @ role @ '']: '' @ py_str content)"

definition format_segment_content :: "string \<Rightarrow> string" where
  "format_segment_content content = content"

text \<open>
  The loop of \<^verbatim>\<open>_split_into_segments\<close> over the messages; its state is
  \<^verbatim>\<open>(segments, current_content, current_tokens, current_types)\<close>. The estimator is
  the analyzer's and may raise.
\<close>

fun split_loop ::
  "(string \<Rightarrow> exn + int) \<Rightarrow> int \<Rightarrow> message list
     \<Rightarrow> segment list \<times> string \<times> int \<times> string list
     \<Rightarrow> exn + segment list \<times> string \<times> int \<times> string list" where
  "split_loop est segment_budget [] st = Inr st"
| "split_loop est segment_budget (msg # msgs)
       (segments, current_content, current_tokens, current_types) =
     (let msg_content = format_message_content msg in
      case est msg_content of
        Inl e \<Rightarrow> Inl e
      | Inr msg_tokens \<Rightarrow>
          (let msg_type = get (msg_role msg) ''unknown'' in
           if current_tokens + msg_tokens > segment_budget \<and> current_content \<noteq> [] then
             split_loop est segment_budget msgs
               (segments @ [\<lparr>seg_content = current_content,
                              seg_estimated_tokens = current_tokens,
                              seg_message_types = set current_types\<rparr>],
                msg_content, msg_tokens, [msg_type])
           else
             split_loop est segment_budget msgs
               (segments,
                (if current_content \<noteq> [] then current_content @ ''\<newline>\<newline>'' @ msg_content
                 else msg_content),
                current_tokens + msg_tokens, current_types @ [msg_type])))"

definition split_into_segments ::
  "(string \<Rightarrow> exn + int) \<Rightarrow> message list \<Rightarrow> int \<Rightarrow> exn + segment list" where
  "split_into_segments est messages segment_budget =
     (case split_loop est segment_budget messages ([], [], 0, []) of
        Inl e \<Rightarrow> Inl e
      | Inr (segments, current_content, current_tokens, current_types) \<Rightarrow>
          Inr (if current_content \<noteq> [] then
                 segments @ [\<lparr>seg_content = current_content,
                                seg_estimated_tokens = current_tokens,
                                seg_message_types = set current_types\<rparr>]
               else segments))"

subsection \<open>Progressive compression\<close>

text \<open>
  One round: the engine call, and what the \<^verbatim>\<open>except\<close> branch makes of the
  cumulative summary when the call raises.
\<close>

definition compression_round ::
  "engine \<Rightarrow> int \<Rightarrow> nat \<Rightarrow> string \<Rightarrow> string \<Rightarrow> string" where
  "compression_round eng segment_budget round_num cumulative_summary segment_content =
     (case eng round_num cumulative_summary segment_content segment_budget of
        Inr s \<Rightarrow> s
      | Inl e \<Rightarrow>
          if cumulative_summary \<noteq> [] then
            cumulative_summary @ ''\<newline>\<newline>[Round '' @ str_of_nat (round_num + 1)
              @ '' compression failed, original content]: ''
              @ py_slice_to segment_content 200 @ ''...''
          else
            ''[Compression failed, original content]: ''
              @ py_slice_to segment_content 500 @ ''...'')"

text \<open>
  The loop over \<^verbatim>\<open>range(compression_rounds)\<close>. Beside the cumulative summary the
  state records the engine's calls, each with its arguments
  \<^verbatim>\<open>(summary, content, max_tokens)\<close>.
\<close>

type_synonym engine_call = "string \<times> string \<times> int"

fun rounds_loop ::
  "engine \<Rightarrow> segment list \<Rightarrow> int \<Rightarrow> nat list \<Rightarrow> string \<times> engine_call list
     \<Rightarrow> string \<times> engine_call list" where
  "rounds_loop eng segments segment_budget [] st = st"
| "rounds_loop eng segments segment_budget (round_num # rest) (cumulative_summary, calls) =
     (let segment = segments ! round_num;
          segment_content = format_segment_content (seg_content segment)
      in rounds_loop eng segments segment_budget rest
           (compression_round eng segment_budget round_num cumulative_summary segment_content,
            calls @ [(cumulative_summary, segment_content, segment_budget)]))"

definition progressive_compression ::
  "engine \<Rightarrow> (string \<Rightarrow> exn + int) \<Rightarrow> message list \<Rightarrow> int
     \<Rightarrow> exn + string \<times> engine_call list" where
  "progressive_compression eng est messages budget_tokens =
     (let segment_budget = budget_tokens div 2 in
      case split_into_segments est messages segment_budget of
        Inl e \<Rightarrow> Inl e
      | Inr segments \<Rightarrow>
          (let compression_rounds = min (length segments) MAX_COMPRESSION_ROUNDS;
               (cumulative_summary, calls) =
                  rounds_loop eng segments segment_budget [0..<compression_rounds] ([], [])
           in if length segments > MAX_COMPRESSION_ROUNDS then
                (let remaining_count = length segments - MAX_COMPRESSION_ROUNDS
                 in Inr (cumulative_summary @ ''\<newline>\<newline>[Notice: '' @ str_of_nat remaining_count
                           @ '' segments not processed due to compression round limit]'',
                         calls))
              else Inr (cumulative_summary, calls)))"

subsection \<open>The engine as an object with state\<close>

text \<open>
  To count the engine's calls, the engine is an object with a state of its own: a call
  takes the state, answers (a summary, or an exception) and leaves the next state.
  Nothing but a call changes the state. The functions below are the round, the loop
  and \<^verbatim>\<open>_progressive_compression\<close> once more, threading that state.
\<close>

type_synonym 'e stateful_engine = "'e \<Rightarrow> string \<Rightarrow> string \<Rightarrow> int \<Rightarrow> (exn + string) \<times> 'e"

definition compression_round_st ::
  "'e stateful_engine \<Rightarrow> int \<Rightarrow> nat \<Rightarrow> 'e \<Rightarrow> string \<Rightarrow> string \<Rightarrow> string \<times> 'e" where
  "compression_round_st eng segment_budget round_num st cumulative_summary segment_content =
     (case eng st cumulative_summary segment_content segment_budget of
        (Inr s, st') \<Rightarrow> (s, st')
      | (Inl e, st') \<Rightarrow>
          (if cumulative_summary \<noteq> [] then
             cumulative_summary @ ''\<newline>\<newline>[Round '' @ str_of_nat (round_num + 1)
               @ '' compression failed, original content]: ''
               @ py_slice_to segment_content 200 @ ''...''
           else
             ''[Compression failed, original content]: ''
               @ py_slice_to segment_content 500 @ ''...'',
           st'))"

fun rounds_loop_st ::
  "'e stateful_engine \<Rightarrow> segment list \<Rightarrow> int \<Rightarrow> nat list \<Rightarrow> string \<times> 'e \<Rightarrow> string \<times> 'e" where
  "rounds_loop_st eng segments segment_budget [] acc = acc"
| "rounds_loop_st eng segments segment_budget (round_num # rest) (cumulative_summary, st) =
     (let segment = segments ! round_num;
          segment_content = format_segment_content (seg_content segment)
      in rounds_loop_st eng segments segment_budget rest
           (compression_round_st eng segment_budget round_num st cumulative_summary
              segment_content))"

definition progressive_compression_st ::
  "'e stateful_engine \<Rightarrow> (string \<Rightarrow> exn + int) \<Rightarrow> message list \<Rightarrow> int \<Rightarrow> 'e
     \<Rightarrow> (exn + string) \<times> 'e" where
  "progressive_compression_st eng est messages budget_tokens st =
     (let segment_budget = budget_tokens div 2 in
      case split_into_segments est messages segment_budget of
        Inl e \<Rightarrow> (Inl e, st)
      | Inr segments \<Rightarrow>
          (let compression_rounds = min (length segments) MAX_COMPRESSION_ROUNDS;
               (cumulative_summary, st') =
                  rounds_loop_st eng segments segment_budget [0..<compression_rounds] ([], st)
           in if length segments > MAX_COMPRESSION_ROUNDS then
                (let remaining_count = length segments - MAX_COMPRESSION_ROUNDS
                 in (Inr (cumulative_summary @ ''\<newline>\<newline>[Notice: '' @ str_of_nat remaining_count
                            @ '' segments not processed due to compression round limit]''),
                     st'))
              else (Inr cumulative_summary, st')))"

text \<open>
  An engine that records its calls: its state is the list of the argument triples
  \<^verbatim>\<open>(summary, content, max_tokens)\<close> it was called with, and it answers its \<open>k\<close>-th call
  as \<open>answers k\<close> does. Every sequence of answers an engine can give is that of some
  \<open>answers\<close>.
\<close>

definition recording_engine :: "engine \<Rightarrow> engine_call list stateful_engine" where
  "recording_engine answers log summary content max_tokens =
     (answers (length log) summary content max_tokens,
      log @ [(summary, content, max_tokens)])"

subsection \<open>Assembly and emergency fallback\<close>

text \<open>\<open>now\<close> is \<^verbatim>\<open>int(time.time())\<close>, the clock read when the message is built.\<close>

definition build_compressed_message :: "int \<Rightarrow> string \<Rightarrow> message" where
  "build_compressed_message now compressed_content =
     \<lparr>msg_role = Some ''user'',
      msg_content =
        Some (PyStr (''[Compressed historical conversation content]\<newline>\<newline>'' @ compressed_content)),
      msg_tool_call_id = None,
      msg_compressed = Some (PyBool True),
      msg_compression_timestamp = Some (PyInt now),
      msg_extra = []\<rparr>"

text \<open>
  \<^verbatim>\<open>last_user_msg["content"]\<close> raises \<^verbatim>\<open>KeyError\<close> when the key is absent, and
  \<^verbatim>\<open>"[Emergency mode] " + ...\<close> raises \<^verbatim>\<open>TypeError\<close> when the value is not a string.
\<close>

definition emergency_fallback :: "message list \<Rightarrow> exn + message list" where
  "emergency_fallback messages =
     (let system_messages = filter (\<lambda>msg. msg_role msg = Some ''system'') messages;
          user_messages = filter (\<lambda>msg. msg_role msg = Some ''user'') messages;
          result = system_messages
      in if user_messages \<noteq> [] then
           (let last_user_msg = last user_messages in
            case msg_content last_user_msg of
              None \<Rightarrow> Inl (KeyError ''content'')
            | Some (PyStr c) \<Rightarrow>
                Inr (result @ [last_user_msg\<lparr>msg_content := Some (PyStr (''[Emergency mode] '' @ c))\<rparr>])
            | Some _ \<Rightarrow> Inl TypeError)
         else
           Inr (result @ [role_content_dict ''user''
                            ''[Emergency mode] Please assist with current task.'']))"

text \<open>The body of the \<^verbatim>\<open>try\<close> block of \<^verbatim>\<open>handle_token_overflow\<close>.\<close>

definition overflow_try ::
  "analyzer \<Rightarrow> engine \<Rightarrow> int \<Rightarrow> message list \<Rightarrow> string \<Rightarrow> exn + message list" where
  "overflow_try an eng now messages error_info =
     (case an_parse_error_info an error_info of
        Inl e \<Rightarrow> Inl e
      | Inr (max_tokens, current_tokens) \<Rightarrow>
          (case int_of_times_ratio max_tokens of
             Inl e \<Rightarrow> Inl e
           | Inr system_budget \<Rightarrow>
               (let compression_budget = max_tokens - system_budget;
                    (system_messages, compressible_messages, protected_messages) =
                       separate_messages_by_compression_policy messages;
                    result_messages = system_messages
                in if compressible_messages \<noteq> [] then
                     (case progressive_compression eng (an_estimate_tokens an)
                             compressible_messages compression_budget of
                        Inl e \<Rightarrow> Inl e
                      | Inr (compressed_content, calls) \<Rightarrow>
                          (let compressed_msg = build_compressed_message now compressed_content
                           in Inr ((result_messages @ [compressed_msg]) @ protected_messages)))
                   else Inr (result_messages @ protected_messages))))"

definition handle_token_overflow ::
  "analyzer \<Rightarrow> engine \<Rightarrow> int \<Rightarrow> message list \<Rightarrow> string \<Rightarrow> exn + message list" where
  "handle_token_overflow an eng now messages error_info =
     (case overflow_try an eng now messages error_info of
        Inr result_messages \<Rightarrow> Inr result_messages
      | Inl e \<Rightarrow> emergency_fallback messages)"

section \<open>The service on a store of shared dictionaries\<close>

text \<open>
  In Python a message list holds references to dictionaries, and a dictionary can be
  written through any of its references. To follow what the service writes, the store
  is the list of the dictionaries allocated so far, a reference is an index into it, and
  allocating (a dictionary literal, or \<^verbatim>\<open>.copy()\<close>) appends to it. The functions below
  are \<^verbatim>\<open>_separate_messages_by_compression_policy\<close>, \<^verbatim>\<open>_emergency_fallback\<close> and
  \<^verbatim>\<open>handle_token_overflow\<close> once more, on references: they return the store they leave
  behind together with the result. Formatting and compression only read the
  dictionaries.
\<close>

type_synonym ref = nat

type_synonym store = "message list"

definition alloc :: "store \<Rightarrow> message \<Rightarrow> store \<times> ref" where
  "alloc h d = (h @ [d], length h)"

fun separate_loop_st ::
  "store \<Rightarrow> ref list \<Rightarrow> ref list \<times> ref list \<times> ref list
     \<Rightarrow> ref list \<times> ref list \<times> ref list" where
  "separate_loop_st h [] acc = acc"
| "separate_loop_st h (msg # msgs)
       (system_messages, compressible_messages, protected_messages) =
     (let role = get (msg_role (h ! msg)) '''' in
      if role = ''system'' then
        separate_loop_st h msgs
          (system_messages @ [msg], compressible_messages, protected_messages)
      else if should_compress_message (h ! msg) then
        separate_loop_st h msgs
          (system_messages, compressible_messages @ [msg], protected_messages)
      else
        separate_loop_st h msgs
          (system_messages, compressible_messages, protected_messages @ [msg]))"

definition emergency_fallback_st :: "store \<Rightarrow> ref list \<Rightarrow> store \<times> (exn + ref list)" where
  "emergency_fallback_st h messages =
     (let system_messages = filter (\<lambda>msg. msg_role (h ! msg) = Some ''system'') messages;
          user_messages = filter (\<lambda>msg. msg_role (h ! msg) = Some ''user'') messages;
          result = system_messages
      in if user_messages \<noteq> [] then
           (let (h1, last_user_msg) = alloc h (h ! last user_messages) in
            case msg_content (h1 ! last_user_msg) of
              None \<Rightarrow> (h1, Inl (KeyError ''content''))
            | Some (PyStr c) \<Rightarrow>
                (h1[last_user_msg :=
                      (h1 ! last_user_msg)\<lparr>msg_content := Some (PyStr (''[Emergency mode] '' @ c))\<rparr>],
                 Inr (result @ [last_user_msg]))
            | Some _ \<Rightarrow> (h1, Inl TypeError))
         else
           (let (h1, placeholder) =
                  alloc h (role_content_dict ''user''
                             ''[Emergency mode] Please assist with current task.'')
            in (h1, Inr (result @ [placeholder]))))"

definition overflow_try_st ::
  "analyzer \<Rightarrow> engine \<Rightarrow> int \<Rightarrow> store \<Rightarrow> ref list \<Rightarrow> string
     \<Rightarrow> store \<times> (exn + ref list)" where
  "overflow_try_st an eng now h messages error_info =
     (case an_parse_error_info an error_info of
        Inl e \<Rightarrow> (h, Inl e)
      | Inr (max_tokens, current_tokens) \<Rightarrow>
          (case int_of_times_ratio max_tokens of
             Inl e \<Rightarrow> (h, Inl e)
           | Inr system_budget \<Rightarrow>
               (let compression_budget = max_tokens - system_budget;
                    (system_messages, compressible_messages, protected_messages) =
                       separate_loop_st h messages ([], [], []);
                    result_messages = system_messages
                in if compressible_messages \<noteq> [] then
                     (case progressive_compression eng (an_estimate_tokens an)
                             (map ((!) h) compressible_messages) compression_budget of
                        Inl e \<Rightarrow> (h, Inl e)
                      | Inr (compressed_content, calls) \<Rightarrow>
                          (let (h1, compressed_msg) =
                                 alloc h (build_compressed_message now compressed_content)
                           in (h1, Inr ((result_messages @ [compressed_msg])
                                          @ protected_messages))))
                   else (h, Inr (result_messages @ protected_messages)))))"

definition handle_token_overflow_st ::
  "analyzer \<Rightarrow> engine \<Rightarrow> int \<Rightarrow> store \<Rightarrow> ref list \<Rightarrow> string
     \<Rightarrow> store \<times> (exn + ref list)" where
  "handle_token_overflow_st an eng now h messages error_info =
     (case overflow_try_st an eng now h messages error_info of
        (h1, Inr result_messages) \<Rightarrow> (h1, Inr result_messages)
      | (h1, Inl e) \<Rightarrow> emergency_fallback_st h1 messages)"

section \<open>Vocabulary of the properties\<close>

text \<open>
  The three classes of \<^verbatim>\<open>_separate_messages_by_compression_policy\<close>: system
  messages, compressible messages (\<open>should_compress_message\<close>, never a system message)
  and protected messages, which are all the others.
\<close>

definition is_system_message :: "message \<Rightarrow> bool" where
  "is_system_message msg = (msg_role msg = Some ''system'')"

definition is_protected_message :: "message \<Rightarrow> bool" where
  "is_protected_message msg = (\<not> is_system_message msg \<and> \<not> should_compress_message msg)"

text \<open>
  The messages a segment bundles are not stored in it. \<open>split_groups\<close> recomputes them:
  the consecutive groups the loop of \<^verbatim>\<open>_split_into_segments\<close> forms, for an estimator
  \<open>f\<close> that does not raise. \<open>segment_of_group\<close> is the segment of a group: its contents
  joined as the loop joins them, the sum of the estimates of its messages, and their
  role labels.
\<close>

definition join_contents :: "string list \<Rightarrow> string" where
  "join_contents cs =
     foldl (\<lambda>current_content msg_content.
              if current_content \<noteq> [] then current_content @ ''\<newline>\<newline>'' @ msg_content
              else msg_content) [] cs"

definition group_tokens :: "(string \<Rightarrow> int) \<Rightarrow> message list \<Rightarrow> int" where
  "group_tokens f g = sum_list (map (\<lambda>msg. f (format_message_content msg)) g)"

definition segment_of_group :: "(string \<Rightarrow> int) \<Rightarrow> message list \<Rightarrow> segment" where
  "segment_of_group f g =
     \<lparr>seg_content = join_contents (map format_message_content g),
      seg_estimated_tokens = group_tokens f g,
      seg_message_types = set (map (\<lambda>msg. get (msg_role msg) ''unknown'') g)\<rparr>"

fun group_loop ::
  "(string \<Rightarrow> int) \<Rightarrow> int \<Rightarrow> message list \<Rightarrow> message list list \<Rightarrow> message list
     \<Rightarrow> message list list" where
  "group_loop f segment_budget [] groups current =
     (if current \<noteq> [] then groups @ [current] else groups)"
| "group_loop f segment_budget (msg # msgs) groups current =
     (if group_tokens f current + f (format_message_content msg) > segment_budget
         \<and> current \<noteq> []
      then group_loop f segment_budget msgs (groups @ [current]) [msg]
      else group_loop f segment_budget msgs groups (current @ [msg]))"

definition split_groups :: "(string \<Rightarrow> int) \<Rightarrow> message list \<Rightarrow> int \<Rightarrow> message list list" where
  "split_groups f messages segment_budget = group_loop f segment_budget messages [] []"

text \<open>
  What a round leaves as the cumulative summary, given the engine's answer to the call
  of that round: the answer itself, or the summary the round started with, extended by
  the failure placeholder.
\<close>

definition round_output :: "exn + string \<Rightarrow> nat \<Rightarrow> string \<Rightarrow> string \<Rightarrow> string" where
  "round_output answer round_num cumulative_summary segment_content =
     (case answer of
        Inr s \<Rightarrow> s
      | Inl e \<Rightarrow>
          if cumulative_summary \<noteq> [] then
            cumulative_summary @ ''\<newline>\<newline>[Round '' @ str_of_nat (round_num + 1)
              @ '' compression failed, original content]: ''
              @ py_slice_to segment_content 200 @ ''...''
          else
            ''[Compression failed, original content]: ''
              @ py_slice_to segment_content 500 @ ''...'')"

text \<open>
  The cumulative summary after the first \<open>k\<close> rounds: empty at the start, and each round
  maps the summary the previous round left to the next one.
\<close>

fun summary_after :: "engine \<Rightarrow> segment list \<Rightarrow> int \<Rightarrow> nat \<Rightarrow> string" where
  "summary_after eng segments segment_budget 0 = []"
| "summary_after eng segments segment_budget (Suc k) =
     compression_round eng segment_budget k (summary_after eng segments segment_budget k)
       (format_segment_content (seg_content (segments ! k)))"

text \<open>
  The condition under which \<^verbatim>\<open>_emergency_fallback\<close> can prefix the last user message:
  there is no user message, or the last one has a string under \<^verbatim>\<open>content\<close>.
\<close>

definition last_user_has_text :: "message list \<Rightarrow> bool" where
  "last_user_has_text messages =
     (case filter (\<lambda>msg. msg_role msg = Some ''user'') messages of
        [] \<Rightarrow> True
      | u # us \<Rightarrow>
          (case msg_content (last (u # us)) of Some (PyStr c) \<Rightarrow> True | _ \<Rightarrow> False))"

text \<open>Collaborators for concrete runs: a model call that always raises.\<close>

definition failing_llm :: llm where
  "failing_llm request = Inl (Failure ''model call failed'')"

text \<open>An engine built on it, as \<^verbatim>\<open>LlmCompressionEngine\<close> is on its model.\<close>

definition failing_engine :: engine where
  "failing_engine = LlmCompressionEngine (\<lambda>n. failing_llm)"

text \<open>An analyzer whose estimator raises: a failure injected during segmentation.\<close>

definition raising_analyzer :: analyzer where
  "raising_analyzer =
     TokenErrorAnalyzer\<lparr>an_estimate_tokens := (\<lambda>text. Inl (Failure ''injected failure''))\<rparr>"

text \<open>The dictionary \<^verbatim>\<open>{"role": "user"}\<close>, a user message without the key \<^verbatim>\<open>content\<close>.\<close>

definition user_message_without_content :: message where
  "user_message_without_content =
     \<lparr>msg_role = Some ''user'', msg_content = None, msg_tool_call_id = None,
      msg_compressed = None, msg_compression_timestamp = None, msg_extra = []\<rparr>"

definition five_messages :: "message list" where
  "five_messages =
     [role_content_dict ''user'' ''aaaaaaaaaaaa'', role_content_dict ''user'' ''bbbbbbbbbbbb'',
      role_content_dict ''user'' ''cccccccccccc'', role_content_dict ''user'' ''dddddddddddd'',
      role_content_dict ''user'' ''eeeeeeeeeeee'']"

definition conversation :: "message list" where
  "conversation =
     [role_content_dict ''system'' ''You are an agent.'',
      role_content_dict ''user'' ''hello'',
      role_content_dict ''assistant'' ''{steps: []}'']"

section \<open>Properties of the token analyzer\<close>

lemma digit_runs_digits:
  "(g, rest) \<in> set (digit_runs acc s) \<Longrightarrow> list_all is_digit acc \<Longrightarrow>
   g \<noteq> [] \<and> list_all is_digit g"
  by (induction acc s rule: digit_runs.induct) (auto split: if_splits)

lemma first_some_map_SomeD:
  "first_some (map f xs) = Some y \<Longrightarrow> \<exists>x\<in>set xs. f x = Some y"
proof (induction xs)
  case (Cons a xs)
  then show ?case by (cases "f a") auto
qed simp

text \<open>Every captured group is a non-empty run of digits, one group per \<^verbatim>\<open>(\d+)\<close>.\<close>

lemma rx_match_groups:
  "rx_match p s = Some gs \<Longrightarrow> \<forall>g\<in>set gs. g \<noteq> [] \<and> list_all is_digit g"
proof (induction p s arbitrary: gs rule: rx_match.induct)
  case (4 p s)
  from first_some_map_SomeD[OF "4.prems"[simplified]]
  obtain g rest gs' where gr: "(g, rest) \<in> set (digit_runs [] s)"
    and m: "rx_match p rest = Some gs'" and gs: "gs = g # gs'"
    by auto
  from digit_runs_digits[OF gr] have "g \<noteq> [] \<and> list_all is_digit g" by simp
  moreover from "4.IH"[OF gr refl m] have "\<forall>g\<in>set gs'. g \<noteq> [] \<and> list_all is_digit g" .
  ultimately show ?case using gs by simp
qed (auto split: if_splits option.splits)

lemma rx_search_groups:
  "rx_search p s = Some gs \<Longrightarrow> \<forall>g\<in>set gs. g \<noteq> [] \<and> list_all is_digit g"
  by (induction p s rule: rx_search.induct) (auto split: option.splits dest: rx_match_groups)

lemma rx_match_length:
  "rx_match p s = Some gs \<Longrightarrow> length gs = length (filter (\<lambda>r. r = Digits) p)"
proof (induction p s arbitrary: gs rule: rx_match.induct)
  case (4 p s)
  from first_some_map_SomeD[OF "4.prems"[simplified]]
  obtain g rest gs' where gr: "(g, rest) \<in> set (digit_runs [] s)"
    and m: "rx_match p rest = Some gs'" and gs: "gs = g # gs'"
    by auto
  from "4.IH"[OF gr refl m] show ?case using gs by simp
qed (auto split: if_splits option.splits)

lemma rx_search_length:
  "rx_search p s = Some gs \<Longrightarrow> length gs = length (filter (\<lambda>r. r = Digits) p)"
  by (induction p s rule: rx_search.induct) (auto split: option.splits dest: rx_match_length)

lemma int_of_digits_nonneg_aux:
  "list_all is_digit s \<Longrightarrow> 0 \<le> a \<Longrightarrow>
   0 \<le> foldl (\<lambda>a c. 10 * a + (int (of_char c) - 48)) a s"
  by (induction s arbitrary: a) (auto simp: is_digit_def Let_def)

lemma int_of_digits_nonneg: "list_all is_digit s \<Longrightarrow> 0 \<le> int_of_digits s"
  unfolding int_of_digits_def by (rule int_of_digits_nonneg_aux) simp_all

lemma first_pattern_match_groups:
  "first_pattern_match ps s = Some gs \<Longrightarrow>
   \<forall>p\<in>set ps. length (filter (\<lambda>r. r = Digits) p) = 2 \<Longrightarrow>
   length gs = 2 \<and> (\<forall>g\<in>set gs. g \<noteq> [] \<and> list_all is_digit g)"
  by (induction ps s rule: first_pattern_match.induct)
     (auto split: option.splits dest: rx_search_groups rx_search_length)

lemma patterns_two_groups: "\<forall>p\<in>set patterns. length (filter (\<lambda>r. r = Digits) p) = 2"
  by (simp add: patterns_def lits_def)

lemma int_of_str_cases:
  "int_of_str s = (if length s \<le> 4300 then Inr (int_of_digits s) else Inl ValueError)"
  by (simp add: int_of_str_def)

lemma parse_error_info_Some:
  assumes "first_pattern_match patterns s = Some gs"
  shows "parse_error_info s =
     (if length (gs ! 0) \<le> 4300 \<and> length (gs ! 1) \<le> 4300 then
        Inr (min (int_of_digits (gs ! 0)) (int_of_digits (gs ! 1)),
             max (int_of_digits (gs ! 0)) (int_of_digits (gs ! 1)))
      else Inl ValueError)"
  using assms by (simp add: parse_error_info_def int_of_str_cases Let_def)

lemma parse_error_info_None:
  "first_pattern_match patterns s = None \<Longrightarrow> parse_error_info s = Inr (4096, 5000)"
  by (simp add: parse_error_info_def)

lemma parse_error_info_nonneg:
  assumes "parse_error_info s = Inr (max_tokens, current_tokens)"
  shows "0 \<le> max_tokens \<and> max_tokens \<le> current_tokens"
proof (cases "first_pattern_match patterns s")
  case None
  with assms show ?thesis by (simp add: parse_error_info_None)
next
  case (Some gs)
  from first_pattern_match_groups[OF Some patterns_two_groups]
  have l: "length gs = 2" and d: "\<forall>g\<in>set gs. list_all is_digit g" by auto
  from l d have "list_all is_digit (gs ! 0)" "list_all is_digit (gs ! 1)" by auto
  then have "0 \<le> int_of_digits (gs ! 0)" "0 \<le> int_of_digits (gs ! 1)"
    by (auto intro: int_of_digits_nonneg)
  then show ?thesis using assms parse_error_info_Some[OF Some]
    by (auto split: if_splits)
qed

text \<open>
  A text that begins with the literal prefix of a pattern, and a run of digits that
  ends where the text ends or goes on with another character: the group takes the
  whole run first.
\<close>

lemma rx_match_lits_prefix: "rx_match (lits pre @ p) (pre @ t) = rx_match p t"
  by (induction pre) (simp_all add: lits_def)

lemma digit_runs_longest:
  "ds \<noteq> [] \<Longrightarrow> list_all is_digit ds \<Longrightarrow> rest = [] \<or> \<not> is_digit (hd rest) \<Longrightarrow>
   \<exists>more. digit_runs acc (ds @ rest) = (acc @ ds, rest) # more"
proof (induction ds arbitrary: acc)
  case Nil
  then show ?case by simp
next
  case (Cons d ds)
  show ?case
  proof (cases "ds = []")
    case True
    have "digit_runs (acc @ [d]) rest = []"
      using Cons.prems(3) by (cases rest) auto
    with True Cons.prems(2) show ?thesis by simp
  next
    case False
    from Cons.IH[OF False _ Cons.prems(3), of "acc @ [d]"] Cons.prems(2)
    obtain more where "digit_runs (acc @ [d]) (ds @ rest) = ((acc @ [d]) @ ds, rest) # more"
      by auto
    with Cons.prems(2) show ?thesis by simp
  qed
qed

lemma rx_match_digits_longest:
  assumes "ds \<noteq> []" and "list_all is_digit ds" and "rest = [] \<or> \<not> is_digit (hd rest)"
      and "rx_match p rest = Some gs"
  shows "rx_match (Digits # p) (ds @ rest) = Some (ds # gs)"
proof -
  from digit_runs_longest[OF assms(1-3), of "[]"]
  obtain more where "digit_runs [] (ds @ rest) = (ds, rest) # more" by auto
  with assms(4) show ?thesis by simp
qed

lemma rx_search_match: "rx_match p s = Some gs \<Longrightarrow> rx_search p s = Some gs"
  by (cases s) simp_all

lemma long_number_groups:
  "first_pattern_match patterns
      (''maximum context length is '' @ replicate 4301 CHR ''1'' @ '' tokens 1 tokens'')
     = Some [replicate 4301 CHR ''1'', ''1'']"
proof -
  let ?q = "lits '' tokens'' @ [LazyDot, Digits] @ lits '' tokens''"
  have q: "rx_match ?q '' tokens 1 tokens'' = Some [''1'']"
    by code_simp
  have d: "list_all is_digit (replicate 4301 CHR ''1'')"
    by (simp add: list_all_iff is_digit_def)
  have n: "\<not> is_digit (hd '' tokens 1 tokens'')"
    by (simp add: is_digit_def)
  have "rx_match (Digits # ?q) (replicate 4301 CHR ''1'' @ '' tokens 1 tokens'')
          = Some [replicate 4301 CHR ''1'', ''1'']"
    by (rule rx_match_digits_longest[OF _ d _ q]) (use n in simp_all)
  then have "rx_match (lits ''maximum context length is '' @ Digits # ?q)
          (''maximum context length is '' @ replicate 4301 CHR ''1'' @ '' tokens 1 tokens'')
          = Some [replicate 4301 CHR ''1'', ''1'']"
    by (simp only: rx_match_lits_prefix)
  then have "rx_search (lits ''maximum context length is '' @ Digits # ?q)
          (''maximum context length is '' @ replicate 4301 CHR ''1'' @ '' tokens 1 tokens'')
          = Some [replicate 4301 CHR ''1'', ''1'']"
    by (rule rx_search_match)
  then show ?thesis
    by (simp add: patterns_def)
qed

text \<open>
  Claim C7, as amended. For every error text: when one of the patterns matches (tried
  in their order), the two captured groups are runs of digits; if neither run is
  longer than 4300 digits, \<open>parse_error_info\<close> returns the smaller of the two numbers
  followed by the larger, whichever came first in the text, and otherwise the
  conversion raises \<^verbatim>\<open>ValueError\<close>. When no pattern matches, it returns the default
  \<open>(4096, 5000)\<close>. In a pair it returns, the first component is never negative and never
  exceeds the second. The OpenAI phrasing with 4096 and 5000 yields \<open>(4096, 5000)\<close>, a
  text without numbers yields the default, and a text naming the request before the
  limit yields the limit first.
\<close>

theorem parse_error_info_min_max:
  "(case first_pattern_match patterns error_message of
      Some gs \<Rightarrow>
        length gs = 2 \<and> list_all is_digit (gs ! 0) \<and> list_all is_digit (gs ! 1)
        \<and> parse_error_info error_message =
            (if length (gs ! 0) \<le> 4300 \<and> length (gs ! 1) \<le> 4300 then
               Inr (min (int_of_digits (gs ! 0)) (int_of_digits (gs ! 1)),
                    max (int_of_digits (gs ! 0)) (int_of_digits (gs ! 1)))
             else Inl ValueError)
    | None \<Rightarrow> parse_error_info error_message = Inr (4096, 5000))
   \<and> (\<forall>max_tokens current_tokens.
         parse_error_info error_message = Inr (max_tokens, current_tokens) \<longrightarrow>
         0 \<le> max_tokens \<and> max_tokens \<le> current_tokens)
   \<and> parse_error_info
        ''maximum context length is 4096 tokens, however you requested 5000 tokens''
        = Inr (4096, 5000)
   \<and> parse_error_info ''garbled text with no numbers'' = Inr (4096, 5000)
   \<and> parse_error_info ''context length exceeded: 5000 > 4096'' = Inr (4096, 5000)"
proof -
  have a: "parse_error_info
        ''maximum context length is 4096 tokens, however you requested 5000 tokens''
        = Inr (4096, 5000)"
    by code_simp
  have b: "parse_error_info ''garbled text with no numbers'' = Inr (4096, 5000)"
    by code_simp
  have c: "parse_error_info ''context length exceeded: 5000 > 4096'' = Inr (4096, 5000)"
    by code_simp
  have e: "(case first_pattern_match patterns error_message of
      Some gs \<Rightarrow>
        length gs = 2 \<and> list_all is_digit (gs ! 0) \<and> list_all is_digit (gs ! 1)
        \<and> parse_error_info error_message =
            (if length (gs ! 0) \<le> 4300 \<and> length (gs ! 1) \<le> 4300 then
               Inr (min (int_of_digits (gs ! 0)) (int_of_digits (gs ! 1)),
                    max (int_of_digits (gs ! 0)) (int_of_digits (gs ! 1)))
             else Inl ValueError)
    | None \<Rightarrow> parse_error_info error_message = Inr (4096, 5000))"
  proof (cases "first_pattern_match patterns error_message")
    case None
    then show ?thesis by (simp add: parse_error_info_None)
  next
    case (Some gs)
    from first_pattern_match_groups[OF Some patterns_two_groups]
    have l: "length gs = 2" and dg: "\<forall>g\<in>set gs. list_all is_digit g" by auto
    from l dg have "list_all is_digit (gs ! 0)" "list_all is_digit (gs ! 1)" by auto
    then show ?thesis using Some l parse_error_info_Some[OF Some] by simp
  qed
  from a b c e parse_error_info_nonneg show ?thesis by blast
qed

theorem parse_error_info_min_max_witness:
  "parse_error_info ''token limit 8192 exceeded, current request: 9000'' = Inr (8192, 9000)
   \<and> first_pattern_match patterns ''token limit 8192 exceeded, current request: 9000''
       = Some [''8192'', ''9000'']"
proof -
  have m: "first_pattern_match patterns ''token limit 8192 exceeded, current request: 9000''
       = Some [''8192'', ''9000'']"
    by code_simp
  have i: "int_of_digits ''8192'' = 8192" "int_of_digits ''9000'' = 9000" by code_simp+
  from parse_error_info_min_max[of "''token limit 8192 exceeded, current request: 9000''"]
  show ?thesis unfolding m using i by simp
qed

text \<open>
  Claim C7 as stated fails for a text with an over-long number: the first pattern
  matches, its first group is a run of 4301 digits, and \<open>parse_error_info\<close> raises
  \<^verbatim>\<open>ValueError\<close> instead of returning a pair.
\<close>

theorem parse_error_info_long_number_raises:
  "parse_error_info
      (''maximum context length is '' @ replicate 4301 CHR ''1'' @ '' tokens 1 tokens'')
     = Inl ValueError"
  using parse_error_info_Some[OF long_number_groups] by simp

text \<open>The estimate is zero for the empty text and does not decrease with the length.\<close>

lemma estimate_tokens_eq: "estimate_tokens s = int (length s) div 3"
  by (simp add: estimate_tokens_def)

lemma estimate_tokens_monotone:
  "estimate_tokens [] = 0
   \<and> (length s \<le> length t \<longrightarrow> estimate_tokens s \<le> estimate_tokens t)"
  by (auto simp: estimate_tokens_eq intro: zdiv_mono1)

section \<open>Properties of the compression engine\<close>

text \<open>
  Claim C6. \<open>compress_content\<close> returns a string whatever the model call does. When the
  model call raises, the result is the truncation fallback: with a prior summary and a
  positive character budget \<open>max_tokens * 3 - len(summary) - 100\<close>, the summary, the
  label of the new content, the new content cut to that budget and the ellipsis; with
  a prior summary and no budget left, the summary cut by the slice
  \<^verbatim>\<open>summary[:max_tokens * 3]\<close> and the ellipsis; without a prior summary, the new
  content cut by \<^verbatim>\<open>content[:max_tokens * 3]\<close> and the ellipsis. For a non-negative
  \<open>max_tokens\<close> these slices are the first \<open>max_tokens * 3\<close> characters.
\<close>

theorem compress_content_failure:
  assumes "ask (compression_request (get_compression_prompt summary content)) = Inl e"
  shows "(summary \<noteq> [] \<and> max_tokens * 3 - int (length summary) - 100 > 0 \<longrightarrow>
            compress_content ask summary content max_tokens =
              summary @ ''\<newline>\<newline>[New Content Summary] ''
                @ take (nat (max_tokens * 3 - int (length summary) - 100)) content @ ''...'')
       \<and> (summary \<noteq> [] \<and> max_tokens * 3 - int (length summary) - 100 \<le> 0 \<longrightarrow>
            compress_content ask summary content max_tokens =
              py_slice_to summary (max_tokens * 3) @ ''...'')
       \<and> (summary = [] \<longrightarrow>
            compress_content ask summary content max_tokens =
              py_slice_to content (max_tokens * 3) @ ''...'')
       \<and> (0 \<le> max_tokens \<longrightarrow>
            py_slice_to summary (max_tokens * 3) = take (nat (max_tokens * 3)) summary
          \<and> py_slice_to content (max_tokens * 3) = take (nat (max_tokens * 3)) content)"
proof -
  from assms have c: "compress_content ask summary content max_tokens =
      fallback_compression summary content max_tokens"
    by (simp add: compress_content_def Let_def)
  show ?thesis unfolding c
    by (simp add: fallback_compression_def py_slice_to_def Let_def)
qed

theorem compress_content_failure_witness:
  "failing_llm (compression_request (get_compression_prompt ''abc'' ''hello world''))
     = Inl (Failure ''model call failed'')
   \<and> compress_content failing_llm ''abc'' ''hello world'' 40
       = ''abc\<newline>\<newline>[New Content Summary] hello world...''
   \<and> compress_content failing_llm ''abcdefgh'' ''hello world'' 2 = ''abcdef...''
   \<and> compress_content failing_llm [] ''hello world'' 2 = ''hello ...''"
proof -
  have h: "failing_llm (compression_request (get_compression_prompt s c))
             = Inl (Failure ''model call failed'')" for s c
    by (simp add: failing_llm_def)
  have 1: "compress_content failing_llm ''abc'' ''hello world'' 40
       = ''abc\<newline>\<newline>[New Content Summary] hello world...''"
    using compress_content_failure[where ask = failing_llm and summary = "''abc''"
        and content = "''hello world''" and max_tokens = 40, OF h] by simp
  have 2: "compress_content failing_llm ''abcdefgh'' ''hello world'' 2 = ''abcdef...''"
    using compress_content_failure[where ask = failing_llm and summary = "''abcdefgh''"
        and content = "''hello world''" and max_tokens = 2, OF h]
    by (simp add: py_slice_to_def)
  have 3: "compress_content failing_llm [] ''hello world'' 2 = ''hello ...''"
    using compress_content_failure[where ask = failing_llm and summary = "[]"
        and content = "''hello world''" and max_tokens = 2, OF h]
    by (simp add: py_slice_to_def)
  from h 1 2 3 show ?thesis by simp
qed

section \<open>Classification, rounds and segmentation: the loops in closed form\<close>

lemma role_system_iff: "get (msg_role m) '''' = ''system'' \<longleftrightarrow> is_system_message m"
  by (cases "msg_role m") (auto simp: get_def is_system_message_def)

lemma should_compress_not_system: "should_compress_message m \<Longrightarrow> \<not> is_system_message m"
  by (auto simp: should_compress_message_def is_system_message_def get_def Let_def)

lemma separate_loop_filter:
  "separate_loop msgs (s, c, p) =
     (s @ filter is_system_message msgs, c @ filter should_compress_message msgs,
      p @ filter is_protected_message msgs)"
proof (induction msgs arbitrary: s c p)
  case Nil
  then show ?case by simp
next
  case (Cons m msgs)
  show ?case
  proof (cases "is_system_message m")
    case True
    then have "\<not> should_compress_message m" using should_compress_not_system by blast
    with True Cons show ?thesis
      by (simp add: role_system_iff is_protected_message_def)
  next
    case False
    with Cons show ?thesis
      by (simp add: role_system_iff is_protected_message_def)
  qed
qed

lemma separate_policy:
  "separate_messages_by_compression_policy msgs =
     (filter is_system_message msgs, filter should_compress_message msgs,
      filter is_protected_message msgs)"
  by (simp add: separate_messages_by_compression_policy_def separate_loop_filter)

text \<open>
  Classification is a partition: every message is in exactly one of the three classes,
  and the classes keep the order of the input.
\<close>

lemma classification_partition:
  "separate_messages_by_compression_policy messages
     = (filter is_system_message messages, filter should_compress_message messages,
        filter is_protected_message messages)
   \<and> length (filter is_system_message messages)
       + length (filter should_compress_message messages)
       + length (filter is_protected_message messages) = length messages
   \<and> (\<forall>msg\<in>set messages.
         (is_system_message msg \<and> \<not> should_compress_message msg \<and> \<not> is_protected_message msg)
       \<or> (\<not> is_system_message msg \<and> should_compress_message msg \<and> \<not> is_protected_message msg)
       \<or> (\<not> is_system_message msg \<and> \<not> should_compress_message msg \<and> is_protected_message msg))"
proof -
  have l: "length (filter is_system_message messages)
       + length (filter should_compress_message messages)
       + length (filter is_protected_message messages) = length messages"
    by (induction messages)
       (auto simp: is_protected_message_def dest: should_compress_not_system)
  have d: "(is_system_message msg \<and> \<not> should_compress_message msg \<and> \<not> is_protected_message msg)
       \<or> (\<not> is_system_message msg \<and> should_compress_message msg \<and> \<not> is_protected_message msg)
       \<or> (\<not> is_system_message msg \<and> \<not> should_compress_message msg \<and> is_protected_message msg)"
    for msg
    using should_compress_not_system[of msg] by (auto simp: is_protected_message_def)
  from separate_policy[of messages] l d show ?thesis by blast
qed

lemma rounds_loop_upt:
  "i \<le> j \<Longrightarrow>
   rounds_loop eng segs sb [i..<j] (summary_after eng segs sb i, calls) =
     (summary_after eng segs sb j,
      calls @ map (\<lambda>k. (summary_after eng segs sb k,
                         format_segment_content (seg_content (segs ! k)), sb)) [i..<j])"
proof (induction "j - i" arbitrary: i calls)
  case 0
  then show ?case by simp
next
  case (Suc d)
  then have lt: "i < j" and d: "d = j - Suc i" and le: "Suc i \<le> j" by auto
  have "rounds_loop eng segs sb [i..<j] (summary_after eng segs sb i, calls) =
        rounds_loop eng segs sb [Suc i..<j]
          (summary_after eng segs sb (Suc i),
           calls @ [(summary_after eng segs sb i, format_segment_content (seg_content (segs ! i)), sb)])"
    using lt by (simp add: upt_conv_Cons Let_def)
  also have "\<dots> = (summary_after eng segs sb j,
      (calls @ [(summary_after eng segs sb i, format_segment_content (seg_content (segs ! i)), sb)])
        @ map (\<lambda>k. (summary_after eng segs sb k,
                         format_segment_content (seg_content (segs ! k)), sb)) [Suc i..<j])"
    by (rule Suc.hyps(1)[OF d le])
  finally show ?case using lt by (simp add: upt_conv_Cons)
qed

lemma progressive_compression_eq:
  assumes "split_into_segments est messages (budget_tokens div 2) = Inr segments"
  shows "progressive_compression eng est messages budget_tokens =
     Inr (summary_after eng segments (budget_tokens div 2) (min (length segments) 3)
            @ (if length segments > 3 then
                 ''\<newline>\<newline>[Notice: '' @ str_of_nat (length segments - 3)
                   @ '' segments not processed due to compression round limit]''
               else []),
          map (\<lambda>k. (summary_after eng segments (budget_tokens div 2) k,
                     format_segment_content (seg_content (segments ! k)), budget_tokens div 2))
            [0..<min (length segments) 3])"
proof -
  have "rounds_loop eng segments (budget_tokens div 2) [0..<min (length segments) 3] ([], [])
      = (summary_after eng segments (budget_tokens div 2) (min (length segments) 3),
         [] @ map (\<lambda>k. (summary_after eng segments (budget_tokens div 2) k,
                     format_segment_content (seg_content (segments ! k)), budget_tokens div 2))
            [0..<min (length segments) 3])"
    using rounds_loop_upt[of 0 "min (length segments) 3" eng segments "budget_tokens div 2" "[]"]
    by simp
  then show ?thesis using assms
    by (simp add: progressive_compression_def Let_def MAX_COMPRESSION_ROUNDS_def)
qed

lemma format_message_content_nonempty: "format_message_content m \<noteq> []"
  by (simp add: format_message_content_def Let_def)

lemma join_contents_snoc:
  "join_contents (cs @ [c]) =
     (if join_contents cs \<noteq> [] then join_contents cs @ ''\<newline>\<newline>'' @ c else c)"
  by (simp add: join_contents_def)

lemma join_contents_Nil: "join_contents [] = []"
  by (simp add: join_contents_def)

lemma join_contents_nonempty:
  "cs \<noteq> [] \<Longrightarrow> \<forall>c\<in>set cs. c \<noteq> [] \<Longrightarrow> join_contents cs \<noteq> []"
  by (induction cs rule: rev_induct) (auto simp: join_contents_snoc)

lemma join_format_nonempty:
  "join_contents (map format_message_content g) \<noteq> [] \<longleftrightarrow> g \<noteq> []"
  using join_contents_nonempty[of "map format_message_content g"]
  by (auto simp: format_message_content_nonempty join_contents_Nil)

lemma group_tokens_snoc:
  "group_tokens f (g @ [m]) = group_tokens f g + f (format_message_content m)"
  by (simp add: group_tokens_def)

lemma group_tokens_Nil: "group_tokens f [] = 0"
  by (simp add: group_tokens_def)

lemma join_contents_single: "join_contents [c] = c"
  by (simp add: join_contents_def)

lemma group_tokens_single: "group_tokens f [m] = f (format_message_content m)"
  by (simp add: group_tokens_def)

lemma split_loop_step_new:
  "group_tokens f current + f (format_message_content m) > B \<and> current \<noteq> [] \<Longrightarrow>
   split_loop (\<lambda>s. Inr (f s)) B (m # msgs)
       (map (segment_of_group f) groups,
        join_contents (map format_message_content current),
        group_tokens f current,
        map (\<lambda>msg. get (msg_role msg) ''unknown'') current)
   = split_loop (\<lambda>s. Inr (f s)) B msgs
          (map (segment_of_group f) (groups @ [current]),
           join_contents (map format_message_content [m]),
           group_tokens f [m],
           map (\<lambda>msg. get (msg_role msg) ''unknown'') [m])"
  by (simp add: Let_def join_format_nonempty join_contents_single group_tokens_single
        segment_of_group_def)

lemma split_loop_step_add:
  "\<not> (group_tokens f current + f (format_message_content m) > B \<and> current \<noteq> []) \<Longrightarrow>
   split_loop (\<lambda>s. Inr (f s)) B (m # msgs)
       (map (segment_of_group f) groups,
        join_contents (map format_message_content current),
        group_tokens f current,
        map (\<lambda>msg. get (msg_role msg) ''unknown'') current)
   = split_loop (\<lambda>s. Inr (f s)) B msgs
          (map (segment_of_group f) groups,
           join_contents (map format_message_content (current @ [m])),
           group_tokens f (current @ [m]),
           map (\<lambda>msg. get (msg_role msg) ''unknown'') (current @ [m]))"
  by (auto simp add: Let_def join_format_nonempty join_contents_snoc group_tokens_snoc)

lemma split_loop_group_loop:
  "(case split_loop (\<lambda>s. Inr (f s)) B msgs
           (map (segment_of_group f) groups,
            join_contents (map format_message_content current),
            group_tokens f current,
            map (\<lambda>msg. get (msg_role msg) ''unknown'') current) of
      Inl e \<Rightarrow> Inl e
    | Inr (segments, current_content, current_tokens, current_types) \<Rightarrow>
        Inr (if current_content \<noteq> [] then
               segments @ [\<lparr>seg_content = current_content,
                              seg_estimated_tokens = current_tokens,
                              seg_message_types = set current_types\<rparr>]
             else segments))
   = Inr (map (segment_of_group f) (group_loop f B msgs groups current))"
proof (induction msgs arbitrary: groups current)
  case Nil
  then show ?case by (simp add: join_format_nonempty segment_of_group_def)
next
  case (Cons m msgs)
  show ?case
  proof (cases "group_tokens f current + f (format_message_content m) > B \<and> current \<noteq> []")
    case True
    have g: "group_loop f B (m # msgs) groups current = group_loop f B msgs (groups @ [current]) [m]"
      using True by simp
    show ?thesis
      unfolding split_loop_step_new[OF True] g by (rule Cons.IH)
  next
    case False
    have g: "group_loop f B (m # msgs) groups current = group_loop f B msgs groups (current @ [m])"
      using False by auto
    show ?thesis
      unfolding split_loop_step_add[OF False] g by (rule Cons.IH)
  qed
qed

lemma split_into_segments_groups:
  "split_into_segments (\<lambda>s. Inr (f s)) msgs B = Inr (map (segment_of_group f) (split_groups f msgs B))"
  using split_loop_group_loop[of f B msgs "[]" "[]"]
  by (simp add: split_into_segments_def split_groups_def join_contents_Nil group_tokens_Nil)

lemma concat_group_loop:
  "concat (group_loop f B msgs groups current) = concat groups @ current @ msgs"
  by (induction msgs arbitrary: groups current) auto

lemma group_loop_nonempty:
  "[] \<notin> set groups \<Longrightarrow> [] \<notin> set (group_loop f B msgs groups current)"
  by (induction msgs arbitrary: groups current) auto

lemma group_loop_bound:
  "\<forall>g\<in>set groups. group_tokens f g \<le> B \<or> length g = 1 \<Longrightarrow>
   length current \<le> 1 \<or> group_tokens f current \<le> B \<Longrightarrow>
   \<forall>g\<in>set (group_loop f B msgs groups current). group_tokens f g \<le> B \<or> length g = 1"
proof (induction msgs arbitrary: groups current)
  case Nil
  then show ?case by (cases current) auto
next
  case (Cons m msgs)
  show ?case
  proof (cases "group_tokens f current + f (format_message_content m) > B \<and> current \<noteq> []")
    case True
    then have c: "group_tokens f current \<le> B \<or> length current = 1"
      using Cons.prems(2) by (cases current) auto
    have "\<forall>g\<in>set (group_loop f B msgs (groups @ [current]) [m]). group_tokens f g \<le> B \<or> length g = 1"
      by (rule Cons.IH) (use Cons.prems(1) c in auto)
    then show ?thesis using True by simp
  next
    case False
    have "\<forall>g\<in>set (group_loop f B msgs groups (current @ [m])). group_tokens f g \<le> B \<or> length g = 1"
    proof (rule Cons.IH[OF Cons.prems(1)])
      show "length (current @ [m]) \<le> 1 \<or> group_tokens f (current @ [m]) \<le> B"
        using False by (cases "current = []") (auto simp: group_tokens_snoc)
    qed
    then show ?thesis using False by auto
  qed
qed

lemma group_loop_length:
  "length groups + (if current \<noteq> [] then 1 else 0) \<le> length (group_loop f B msgs groups current)"
proof (induction msgs arbitrary: groups current)
  case Nil
  then show ?case by simp
next
  case (Cons m msgs)
  show ?case
  proof (cases "group_tokens f current + f (format_message_content m) > B \<and> current \<noteq> []")
    case True
    then show ?thesis using Cons.IH[of "groups @ [current]" "[m]"] by simp
  next
    case False
    then show ?thesis using Cons.IH[of groups "current @ [m]"] by auto
  qed
qed

lemma group_loop_single:
  "length (group_loop f B msgs [] current) \<le> 1 \<Longrightarrow>
   length current \<le> 1 \<or> group_tokens f current \<le> B \<Longrightarrow>
   length (current @ msgs) \<le> 1 \<or> group_tokens f (current @ msgs) \<le> B"
proof (induction msgs arbitrary: current)
  case Nil
  then show ?case by simp
next
  case (Cons m msgs)
  show ?case
  proof (cases "group_tokens f current + f (format_message_content m) > B \<and> current \<noteq> []")
    case True
    then have "2 \<le> length (group_loop f B (m # msgs) [] current)"
      using group_loop_length[of "[current]" "[m]" f B msgs] by simp
    with Cons.prems(1) show ?thesis by simp
  next
    case False
    have inv: "length (current @ [m]) \<le> 1 \<or> group_tokens f (current @ [m]) \<le> B"
      using False by (cases "current = []") (auto simp: group_tokens_snoc)
    have "length (group_loop f B msgs [] (current @ [m])) \<le> 1"
      using Cons.prems(1) False by auto
    from Cons.IH[OF this inv] show ?thesis by simp
  qed
qed

lemma join_contents_length:
  "(\<Sum>c\<leftarrow>cs. int (length c) div 3) \<le> int (length (join_contents cs)) div 3"
proof (induction cs rule: rev_induct)
  case Nil
  then show ?case by (simp add: join_contents_def)
next
  case (snoc c cs)
  have "int (length (join_contents cs)) div 3 + int (length c) div 3
        \<le> int (length (join_contents (cs @ [c]))) div 3"
    by (auto simp: join_contents_snoc)
  with snoc show ?case by simp
qed

lemma group_tokens_le_content:
  "group_tokens estimate_tokens g
     \<le> estimate_tokens (join_contents (map format_message_content g))"
  using join_contents_length[of "map format_message_content g"]
  by (simp add: group_tokens_def estimate_tokens_eq comp_def)

section \<open>Properties of segmentation\<close>

text \<open>
  Claim C4, as amended. For every estimator that does not raise, every list of messages
  and every budget, the segments are those of the consecutive groups
  \<open>split_groups\<close>: the groups are non-empty and concatenate to the input, so every
  message is consumed, in order, exactly once. (1) Every segment's estimated token count
  is at most the budget, unless its group is a single message whose own estimate
  exceeds the budget. (2) When there are at least two messages and their total estimate
  exceeds the budget, there is more than one segment.
\<close>

theorem split_into_segments_budget:
  "split_into_segments (\<lambda>s. Inr (f s)) messages segment_budget
     = Inr (map (segment_of_group f) (split_groups f messages segment_budget))
   \<and> concat (split_groups f messages segment_budget) = messages
   \<and> [] \<notin> set (split_groups f messages segment_budget)
   \<and> (\<forall>g\<in>set (split_groups f messages segment_budget).
         seg_estimated_tokens (segment_of_group f g) \<le> segment_budget
         \<or> (\<exists>m. g = [m] \<and> f (format_message_content m) > segment_budget))
   \<and> (2 \<le> length messages \<and> group_tokens f messages > segment_budget
        \<longrightarrow> 1 < length (split_groups f messages segment_budget))"
proof -
  let ?gs = "split_groups f messages segment_budget"
  have a: "concat ?gs = messages"
    by (simp add: split_groups_def concat_group_loop)
  have b: "[] \<notin> set ?gs"
    unfolding split_groups_def by (rule group_loop_nonempty) simp
  have c0: "\<forall>g\<in>set ?gs. group_tokens f g \<le> segment_budget \<or> length g = 1"
    unfolding split_groups_def by (rule group_loop_bound) simp_all
  have c: "\<forall>g\<in>set ?gs. seg_estimated_tokens (segment_of_group f g) \<le> segment_budget
         \<or> (\<exists>m. g = [m] \<and> f (format_message_content m) > segment_budget)"
  proof
    fix g assume "g \<in> set ?gs"
    with c0 have "group_tokens f g \<le> segment_budget \<or> length g = 1" by blast
    then show "seg_estimated_tokens (segment_of_group f g) \<le> segment_budget
         \<or> (\<exists>m. g = [m] \<and> f (format_message_content m) > segment_budget)"
    proof
      assume "group_tokens f g \<le> segment_budget"
      then show ?thesis by (simp add: segment_of_group_def)
    next
      assume "length g = 1"
      then obtain m where g: "g = [m]" by (cases g) auto
      show ?thesis
      proof (cases "f (format_message_content m) > segment_budget")
        case True
        with g show ?thesis by blast
      next
        case False
        with g show ?thesis by (simp add: segment_of_group_def group_tokens_single)
      qed
    qed
  qed
  have d: "2 \<le> length messages \<and> group_tokens f messages > segment_budget
        \<longrightarrow> 1 < length ?gs"
  proof (rule impI, rule ccontr)
    assume h: "2 \<le> length messages \<and> group_tokens f messages > segment_budget"
    assume "\<not> 1 < length ?gs"
    then have "length (group_loop f segment_budget messages [] []) \<le> 1"
      by (simp add: split_groups_def)
    from group_loop_single[OF this] have
      "length messages \<le> 1 \<or> group_tokens f messages \<le> segment_budget" by simp
    with h show False by linarith
  qed
  from split_into_segments_groups[of f messages segment_budget] a b c d show ?thesis by blast
qed

theorem split_into_segments_budget_witness:
  "2 \<le> length five_messages
   \<and> group_tokens estimate_tokens five_messages > 7
   \<and> 1 < length (split_groups estimate_tokens five_messages 7)
   \<and> concat (split_groups estimate_tokens five_messages 7) = five_messages"
proof -
  have h: "2 \<le> length five_messages \<and> group_tokens estimate_tokens five_messages > 7"
    by code_simp
  from split_into_segments_budget[of estimate_tokens five_messages 7] h
  show ?thesis by blast
qed

text \<open>
  Claim C4 as stated fails for a single oversized message: its estimate 6 exceeds the
  budget 1, and it is the only segment.
\<close>

theorem single_oversized_message_one_segment:
  "split_into_segments (an_estimate_tokens TokenErrorAnalyzer)
      [role_content_dict ''user'' ''aaaaaaaaaaaa''] 1
     = Inr [\<lparr>seg_content = ''[user]: aaaaaaaaaaaa'', seg_estimated_tokens = 6,
             seg_message_types = {''user''}\<rparr>]
   \<and> group_tokens estimate_tokens [role_content_dict ''user'' ''aaaaaaaaaaaa''] = 6"
  by code_simp

text \<open>
  Claim C10. With the analyzer's \<open>estimate_tokens\<close>, every segment's
  \<open>seg_estimated_tokens\<close> is the sum of the estimates of the formatted contents of the
  messages of its group, each estimated on its own; the separators the loop puts into
  \<open>seg_content\<close> are not counted, and the field never exceeds the estimate of the whole
  content string.
\<close>

theorem segment_estimated_tokens_sum:
  "split_into_segments (an_estimate_tokens TokenErrorAnalyzer) messages segment_budget
     = Inr (map (segment_of_group estimate_tokens)
              (split_groups estimate_tokens messages segment_budget))
   \<and> concat (split_groups estimate_tokens messages segment_budget) = messages
   \<and> (\<forall>g\<in>set (split_groups estimate_tokens messages segment_budget).
         seg_estimated_tokens (segment_of_group estimate_tokens g)
           = (\<Sum>msg\<leftarrow>g. estimate_tokens (format_message_content msg))
       \<and> seg_content (segment_of_group estimate_tokens g)
           = join_contents (map format_message_content g)
       \<and> seg_estimated_tokens (segment_of_group estimate_tokens g)
           \<le> estimate_tokens (seg_content (segment_of_group estimate_tokens g)))"
proof -
  have e: "an_estimate_tokens TokenErrorAnalyzer = (\<lambda>s. Inr (estimate_tokens s))"
    by (simp add: TokenErrorAnalyzer_def)
  have a: "concat (split_groups estimate_tokens messages segment_budget) = messages"
    by (simp add: split_groups_def concat_group_loop)
  have b: "seg_estimated_tokens (segment_of_group estimate_tokens g)
           = (\<Sum>msg\<leftarrow>g. estimate_tokens (format_message_content msg))
       \<and> seg_content (segment_of_group estimate_tokens g)
           = join_contents (map format_message_content g)
       \<and> seg_estimated_tokens (segment_of_group estimate_tokens g)
           \<le> estimate_tokens (seg_content (segment_of_group estimate_tokens g))" for g
    using group_tokens_le_content[of g]
    by (simp add: segment_of_group_def group_tokens_def)
  from split_into_segments_groups[of estimate_tokens messages segment_budget] a b
  show ?thesis unfolding e by blast
qed

theorem segment_estimated_tokens_sum_witness:
  "split_into_segments (an_estimate_tokens TokenErrorAnalyzer) (take 2 five_messages) 12
     = Inr [\<lparr>seg_content = ''[user]: aaaaaaaaaaaa\<newline>\<newline>[user]: bbbbbbbbbbbb'',
             seg_estimated_tokens = 12, seg_message_types = {''user''}\<rparr>]
   \<and> estimate_tokens ''[user]: aaaaaaaaaaaa\<newline>\<newline>[user]: bbbbbbbbbbbb'' = 14"
proof -
  have g: "split_groups estimate_tokens (take 2 five_messages) 12 = [take 2 five_messages]"
    by code_simp
  have s: "segment_of_group estimate_tokens (take 2 five_messages)
     = \<lparr>seg_content = ''[user]: aaaaaaaaaaaa\<newline>\<newline>[user]: bbbbbbbbbbbb'',
             seg_estimated_tokens = 12, seg_message_types = {''user''}\<rparr>"
    by code_simp
  have e: "estimate_tokens ''[user]: aaaaaaaaaaaa\<newline>\<newline>[user]: bbbbbbbbbbbb'' = 14"
    by code_simp
  from segment_estimated_tokens_sum[of "take 2 five_messages" 12] e
  show ?thesis unfolding g by (simp add: s)
qed

section \<open>Properties of progressive compression\<close>

text \<open>
  A round with the recording engine: the engine is applied once, to the cumulative
  summary, the segment content and the segment budget, and that call is what extends
  the log.
\<close>

lemma compression_round_output:
  "compression_round answers sb k cum content
     = round_output (answers k cum content sb) k cum content"
  by (simp add: compression_round_def round_output_def split: sum.splits)

lemma compression_round_st_recording:
  "compression_round_st (recording_engine answers) sb k log cum content
     = (round_output (answers (length log) cum content sb) k cum content,
        log @ [(cum, content, sb)])"
  by (simp add: compression_round_st_def recording_engine_def round_output_def
        split: sum.splits)

lemma rounds_loop_st_recording:
  "length log = i \<Longrightarrow>
   rounds_loop_st (recording_engine answers) segs sb [i..<j] (cum, log)
     = rounds_loop answers segs sb [i..<j] (cum, log)"
proof (induction "j - i" arbitrary: i cum log)
  case 0
  then show ?case by simp
next
  case (Suc d)
  then have lt: "i < j" and d: "d = j - Suc i" by auto
  let ?c = "format_segment_content (seg_content (segs ! i))"
  have l: "length (log @ [(cum, ?c, sb)]) = Suc i" using Suc.prems by simp
  have "rounds_loop_st (recording_engine answers) segs sb [i..<j] (cum, log)
        = rounds_loop_st (recording_engine answers) segs sb [Suc i..<j]
            (round_output (answers i cum ?c sb) i cum ?c, log @ [(cum, ?c, sb)])"
    using lt Suc.prems
    by (simp add: upt_conv_Cons Let_def compression_round_st_recording)
  also have "\<dots> = rounds_loop answers segs sb [Suc i..<j]
            (round_output (answers i cum ?c sb) i cum ?c, log @ [(cum, ?c, sb)])"
    by (rule Suc.hyps(1)[OF d l])
  also have "\<dots> = rounds_loop answers segs sb [i..<j] (cum, log)"
    using lt by (simp add: upt_conv_Cons Let_def compression_round_output)
  finally show ?case .
qed

lemma progressive_compression_st_recording:
  "progressive_compression_st (recording_engine answers) est messages budget_tokens []
     = (case progressive_compression answers est messages budget_tokens of
          Inl e \<Rightarrow> (Inl e, [])
        | Inr (final, calls) \<Rightarrow> (Inr final, calls))"
proof (cases "split_into_segments est messages (budget_tokens div 2)")
  case (Inl e)
  then show ?thesis
    by (simp add: progressive_compression_st_def progressive_compression_def Let_def)
next
  case (Inr segments)
  have r: "rounds_loop_st (recording_engine answers) segments (budget_tokens div 2)
             [0..<min (length segments) 3] ([], [])
           = rounds_loop answers segments (budget_tokens div 2)
               [0..<min (length segments) 3] ([], [])"
    by (rule rounds_loop_st_recording) simp
  show ?thesis
    using Inr
    by (simp add: progressive_compression_st_def progressive_compression_def Let_def
          MAX_COMPRESSION_ROUNDS_def r split: prod.splits)
qed

text \<open>
  Claim C5. Run progressive compression with an engine that records the calls it
  receives, starting from an empty record, whatever the answers of the engine are.
  The engine is called once per round, for the first \<open>min (length segments) 3\<close> segments
  in their order, so at most 3 times. Call \<open>k\<close> receives the content of segment \<open>k\<close> and
  the segment budget; its summary is empty for the first call and otherwise what the
  previous round left: the answer the engine gave to the previous call, or, when that
  call raised, the previous summary extended by the failure placeholder. With at most
  3 segments the final summary is what the last round left. With 5 segments the engine
  is called exactly 3 times, for the segments 0, 1 and 2 and no other, and the final
  summary is what round 2 left, followed by the notice that 2 segments were not
  processed.
\<close>

theorem progressive_compression_engine_calls:
  assumes "split_into_segments est messages (budget_tokens div 2) = Inr segments"
  shows "\<exists>final log.
           progressive_compression_st (recording_engine answers) est messages budget_tokens []
             = (Inr final, log)
         \<and> length log = min (length segments) 3
         \<and> (\<forall>k<length log.
               snd (log ! k) = (seg_content (segments ! k), budget_tokens div 2))
         \<and> (\<forall>k<length log.
               fst (log ! k) =
                 (if k = 0 then []
                  else round_output
                         (answers (k - 1) (fst (log ! (k - 1)))
                            (seg_content (segments ! (k - 1))) (budget_tokens div 2))
                         (k - 1) (fst (log ! (k - 1))) (seg_content (segments ! (k - 1)))))
         \<and> (segments = [] \<longrightarrow> final = [])
         \<and> (0 < length segments \<and> length segments \<le> 3 \<longrightarrow>
               final =
                 round_output
                   (answers (length segments - 1) (fst (log ! (length segments - 1)))
                      (seg_content (segments ! (length segments - 1))) (budget_tokens div 2))
                   (length segments - 1) (fst (log ! (length segments - 1)))
                   (seg_content (segments ! (length segments - 1))))
         \<and> (length segments = 5 \<longrightarrow>
               length log = 3
             \<and> final =
                 round_output
                   (answers 2 (fst (log ! 2)) (seg_content (segments ! 2))
                      (budget_tokens div 2))
                   2 (fst (log ! 2)) (seg_content (segments ! 2))
                 @ ''\<newline>\<newline>[Notice: 2 segments not processed due to compression round limit]'')"
proof -
  let ?sb = "budget_tokens div 2"
  let ?n = "min (length segments) 3"
  let ?S = "summary_after answers segments ?sb"
  let ?log = "map (\<lambda>k. (?S k, format_segment_content (seg_content (segments ! k)), ?sb))
                [0..<?n]"
  let ?final = "?S ?n
            @ (if length segments > 3 then
                 ''\<newline>\<newline>[Notice: '' @ str_of_nat (length segments - 3)
                   @ '' segments not processed due to compression round limit]''
               else [])"
  have step: "?S (Suc k) = round_output (answers k (?S k) (seg_content (segments ! k)) ?sb)
                              k (?S k) (seg_content (segments ! k))" for k
    by (simp add: compression_round_output format_segment_content_def)
  have p: "progressive_compression_st (recording_engine answers) est messages budget_tokens []
             = (Inr ?final, ?log)"
    by (simp add: progressive_compression_st_recording progressive_compression_eq[OF assms])
  have l: "length ?log = ?n" by simp
  have c: "\<forall>k<length ?log. snd (?log ! k) = (seg_content (segments ! k), ?sb)"
    by (simp add: format_segment_content_def)
  have f: "fst (?log ! k) = ?S k" if "k < ?n" for k
    using that by simp
  have d: "\<forall>k<length ?log.
               fst (?log ! k) =
                 (if k = 0 then []
                  else round_output
                         (answers (k - 1) (fst (?log ! (k - 1)))
                            (seg_content (segments ! (k - 1))) ?sb)
                         (k - 1) (fst (?log ! (k - 1))) (seg_content (segments ! (k - 1))))"
  proof (intro allI impI)
    fix k assume k: "k < length ?log"
    show "fst (?log ! k) =
                 (if k = 0 then []
                  else round_output
                         (answers (k - 1) (fst (?log ! (k - 1)))
                            (seg_content (segments ! (k - 1))) ?sb)
                         (k - 1) (fst (?log ! (k - 1))) (seg_content (segments ! (k - 1))))"
    proof (cases k)
      case 0
      with k show ?thesis by simp
    next
      case (Suc j)
      with k have j: "j < ?n" and sj: "Suc j < ?n" by simp_all
      show ?thesis unfolding Suc using f[OF j] f[OF sj] step[of j] by simp
    qed
  qed
  have e0: "segments = [] \<longrightarrow> ?final = []" by simp
  have e: "0 < length segments \<and> length segments \<le> 3 \<longrightarrow>
               ?final =
                 round_output
                   (answers (length segments - 1) (fst (?log ! (length segments - 1)))
                      (seg_content (segments ! (length segments - 1))) ?sb)
                   (length segments - 1) (fst (?log ! (length segments - 1)))
                   (seg_content (segments ! (length segments - 1)))"
  proof
    assume h: "0 < length segments \<and> length segments \<le> 3"
    then obtain j where j: "length segments = Suc j" by (cases "length segments") auto
    with h have n: "?n = Suc j" and jn: "j < ?n" by simp_all
    have "?final = ?S (Suc j)" using h j by simp
    also have "\<dots> = round_output (answers j (fst (?log ! j)) (seg_content (segments ! j)) ?sb)
                              j (fst (?log ! j)) (seg_content (segments ! j))"
      unfolding f[OF jn] by (rule step)
    finally show "?final =
                 round_output
                   (answers (length segments - 1) (fst (?log ! (length segments - 1)))
                      (seg_content (segments ! (length segments - 1))) ?sb)
                   (length segments - 1) (fst (?log ! (length segments - 1)))
                   (seg_content (segments ! (length segments - 1)))"
      using j by simp
  qed
  have two: "str_of_nat 2 = ''2''" by code_simp
  have g: "length segments = 5 \<longrightarrow>
               length ?log = 3
             \<and> ?final =
                 round_output
                   (answers 2 (fst (?log ! 2)) (seg_content (segments ! 2)) ?sb)
                   2 (fst (?log ! 2)) (seg_content (segments ! 2))
                 @ ''\<newline>\<newline>[Notice: 2 segments not processed due to compression round limit]''"
  proof
    assume h: "length segments = 5"
    then have n: "?n = 3" by simp
    have j: "(2::nat) < ?n" using n by simp
    have s3: "?S 3 = round_output (answers 2 (fst (?log ! 2)) (seg_content (segments ! 2)) ?sb)
                   2 (fst (?log ! 2)) (seg_content (segments ! 2))"
      unfolding f[OF j] using step[of 2] by (simp add: numeral_3_eq_3 numeral_2_eq_2)
    show "length ?log = 3
             \<and> ?final =
                 round_output
                   (answers 2 (fst (?log ! 2)) (seg_content (segments ! 2)) ?sb)
                   2 (fst (?log ! 2)) (seg_content (segments ! 2))
                 @ ''\<newline>\<newline>[Notice: 2 segments not processed due to compression round limit]''"
      using h n s3 by (simp add: two)
  qed
  from p l c d e0 e g show ?thesis by blast
qed

theorem progressive_compression_engine_calls_witness:
  "progressive_compression_st (recording_engine failing_engine)
       (an_estimate_tokens TokenErrorAnalyzer) five_messages 14 []
     = (Inr ''[user]: aaaaaaaaaaaa....\<newline>\<newline>[Notice: 2 segments not processed due to compression round limit]'',
        [([], ''[user]: aaaaaaaaaaaa'', 7),
         (''[user]: aaaaaaaaaaaa...'', ''[user]: bbbbbbbbbbbb'', 7),
         (''[user]: aaaaaaaaaaaa....'', ''[user]: cccccccccccc'', 7)])"
proof -
  define segs where "segs = map (\<lambda>m. segment_of_group estimate_tokens [m]) five_messages"
  have h: "split_into_segments (an_estimate_tokens TokenErrorAnalyzer) five_messages
             ((14::int) div 2) = Inr segs"
    unfolding segs_def by code_simp
  have len: "length segs = 5" unfolding segs_def by (simp add: five_messages_def)
  have v: "progressive_compression_st (recording_engine failing_engine)
       (an_estimate_tokens TokenErrorAnalyzer) five_messages 14 []
     = (Inr ''[user]: aaaaaaaaaaaa....\<newline>\<newline>[Notice: 2 segments not processed due to compression round limit]'',
        [([], ''[user]: aaaaaaaaaaaa'', 7),
         (''[user]: aaaaaaaaaaaa...'', ''[user]: bbbbbbbbbbbb'', 7),
         (''[user]: aaaaaaaaaaaa....'', ''[user]: cccccccccccc'', 7)])"
    by code_simp
  from progressive_compression_engine_calls[OF h, of failing_engine]
  obtain final log where
    p: "progressive_compression_st (recording_engine failing_engine)
          (an_estimate_tokens TokenErrorAnalyzer) five_messages 14 [] = (Inr final, log)"
    and f: "length segs = 5 \<longrightarrow> length log = 3"
    by blast
  from f len have "length log = 3" by simp
  with p v show ?thesis by simp
qed

section \<open>Properties of the orchestrator\<close>

lemma should_compress_message_iff:
  "should_compress_message m \<longleftrightarrow> msg_role m = Some ''user'' \<or> msg_role m = Some ''tool''"
  by (cases "msg_role m") (auto simp: should_compress_message_def get_def Let_def)

lemma overflow_try_eq:
  assumes "an_parse_error_info an error_info = Inr (max_tokens, current_tokens)"
      and "int_of_times_ratio max_tokens = Inr system_budget"
  shows "overflow_try an eng now messages error_info =
     (if filter should_compress_message messages \<noteq> [] then
        (case progressive_compression eng (an_estimate_tokens an)
                (filter should_compress_message messages) (max_tokens - system_budget) of
           Inl e \<Rightarrow> Inl e
         | Inr (summary, calls) \<Rightarrow>
             Inr (filter is_system_message messages @ [build_compressed_message now summary]
                    @ filter is_protected_message messages))
      else Inr (filter is_system_message messages @ filter is_protected_message messages))"
  using assms
  by (simp add: overflow_try_def separate_policy Let_def split: sum.splits prod.splits)

lemma overflow_try_InrD:
  assumes "overflow_try an eng now messages error_info = Inr out"
  shows "\<exists>max_tokens current_tokens system_budget.
           an_parse_error_info an error_info = Inr (max_tokens, current_tokens)
         \<and> int_of_times_ratio max_tokens = Inr system_budget"
  using assms by (auto simp: overflow_try_def split: sum.splits prod.splits)

text \<open>
  Claim C2. Whenever the \<^verbatim>\<open>try\<close> block of \<open>handle_token_overflow\<close> returns, that list is
  the result of the call, and it is: the system messages of the input in their order,
  then the synthetic message if and only if the input has a message of role user or
  tool, then the protected messages of the input in their order, each the input record
  itself. The synthetic message has the role user, as content the header
  \<^verbatim>\<open>[Compressed historical conversation content]\<close>, a blank line and the cumulative
  summary that progressive compression returned for the compressible messages, the
  marker \<open>True\<close>, and as timestamp the integer the clock gave.
\<close>

theorem overflow_try_assembly:
  assumes "overflow_try an eng now messages error_info = Inr out"
  shows "handle_token_overflow an eng now messages error_info = Inr out
     \<and> (\<exists>synthetic.
           out = filter is_system_message messages @ synthetic
                   @ filter is_protected_message messages
         \<and> ((\<exists>m\<in>set messages. msg_role m = Some ''user'' \<or> msg_role m = Some ''tool'') \<longrightarrow>
              (\<exists>max_tokens current_tokens system_budget summary calls.
                  an_parse_error_info an error_info = Inr (max_tokens, current_tokens)
                \<and> int_of_times_ratio max_tokens = Inr system_budget
                \<and> progressive_compression eng (an_estimate_tokens an)
                      (filter should_compress_message messages) (max_tokens - system_budget)
                    = Inr (summary, calls)
                \<and> synthetic =
                    [\<lparr>msg_role = Some ''user'',
                      msg_content = Some (PyStr
                        (''[Compressed historical conversation content]\<newline>\<newline>'' @ summary)),
                      msg_tool_call_id = None,
                      msg_compressed = Some (PyBool True),
                      msg_compression_timestamp = Some (PyInt now),
                      msg_extra = []\<rparr>]))
         \<and> (\<not> (\<exists>m\<in>set messages. msg_role m = Some ''user'' \<or> msg_role m = Some ''tool'') \<longrightarrow>
              synthetic = []))"
proof -
  from overflow_try_InrD[OF assms] obtain max_tokens current_tokens system_budget where
    p: "an_parse_error_info an error_info = Inr (max_tokens, current_tokens)"
    and b: "int_of_times_ratio max_tokens = Inr system_budget" by blast
  note eq = overflow_try_eq[OF p b, of eng now messages]
  have h: "handle_token_overflow an eng now messages error_info = Inr out"
    using assms by (simp add: handle_token_overflow_def)
  have ex: "(\<exists>m\<in>set messages. msg_role m = Some ''user'' \<or> msg_role m = Some ''tool'')
        \<longleftrightarrow> filter should_compress_message messages \<noteq> []"
    by (auto simp: filter_empty_conv should_compress_message_iff)
  show ?thesis
  proof (cases "filter should_compress_message messages = []")
    case True
    with eq assms have "out = filter is_system_message messages @ []
                   @ filter is_protected_message messages" by simp
    with h True ex show ?thesis by blast
  next
    case False
    with eq assms obtain summary calls where
      pc: "progressive_compression eng (an_estimate_tokens an)
                (filter should_compress_message messages) (max_tokens - system_budget)
            = Inr (summary, calls)"
      and o: "out = filter is_system_message messages @ [build_compressed_message now summary]
                    @ filter is_protected_message messages"
      by (auto split: sum.splits)
    have "build_compressed_message now summary = \<lparr>msg_role = Some ''user'',
                      msg_content = Some (PyStr
                        (''[Compressed historical conversation content]\<newline>\<newline>'' @ summary)),
                      msg_tool_call_id = None,
                      msg_compressed = Some (PyBool True),
                      msg_compression_timestamp = Some (PyInt now),
                      msg_extra = []\<rparr>"
      by (simp add: build_compressed_message_def)
    with h False ex p b pc o show ?thesis by blast
  qed
qed

theorem overflow_try_assembly_witness:
  "overflow_try TokenErrorAnalyzer failing_engine 1700000000 conversation ''garbled''
     = Inr [role_content_dict ''system'' ''You are an agent.'',
            build_compressed_message 1700000000 ''[user]: hello...'',
            role_content_dict ''assistant'' ''{steps: []}'']
   \<and> handle_token_overflow TokenErrorAnalyzer failing_engine 1700000000 conversation ''garbled''
     = Inr [role_content_dict ''system'' ''You are an agent.'',
            build_compressed_message 1700000000 ''[user]: hello...'',
            role_content_dict ''assistant'' ''{steps: []}'']"
proof -
  have h: "overflow_try TokenErrorAnalyzer failing_engine 1700000000 conversation ''garbled''
     = Inr [role_content_dict ''system'' ''You are an agent.'',
            build_compressed_message 1700000000 ''[user]: hello...'',
            role_content_dict ''assistant'' ''{steps: []}'']"
    by code_simp
  from overflow_try_assembly[OF h] h show ?thesis by blast
qed

lemma bit_length_le: "n < 2 ^ k \<Longrightarrow> bit_length n \<le> k"
proof (induction k arbitrary: n)
  case 0
  then show ?case by (simp add: bit_length.simps)
next
  case (Suc k)
  then have "n div 2 < 2 ^ k" by simp
  from Suc.IH[OF this] show ?case by (subst bit_length.simps) simp
qed

lemma float_of_magnitude_exact: "0 \<le> n \<Longrightarrow> n < 2 ^ 53 \<Longrightarrow> float_of_magnitude n = Inr n"
proof -
  assume a: "n < 2 ^ 53" and n: "0 \<le> n"
  then have "bit_length n - 53 = 0" using bit_length_le[of n 53] by simp
  moreover have "(2::int) ^ 53 < 2 ^ 1024" by (rule power_strict_increasing) simp_all
  then have "\<not> n \<ge> 2 ^ 1024" using a by linarith
  ultimately show ?thesis by (simp add: float_of_magnitude_def Let_def)
qed

lemma int_of_times_ratio_exact:
  "0 \<le> n \<Longrightarrow> n < 2 ^ 53 \<Longrightarrow> int_of_times_ratio n = Inr (n div 4)"
proof -
  assume a: "0 \<le> n" "n < 2 ^ 53"
  from float_of_magnitude_exact[of "\<bar>n\<bar>"] a show ?thesis
    by (cases "n = 0") (simp_all add: int_of_times_ratio_def)
qed

lemma progressive_compression_InrD:
  assumes "progressive_compression eng est msgs b = Inr (summary, calls)"
  shows "\<exists>segments. split_into_segments est msgs (b div 2) = Inr segments
            \<and> length calls = min (length segments) 3
            \<and> (\<forall>c\<in>set calls. snd (snd c) = b div 2)"
proof (cases "split_into_segments est msgs (b div 2)")
  case (Inl e)
  with assms show ?thesis by (simp add: progressive_compression_def Let_def)
next
  case (Inr segments)
  from progressive_compression_eq[OF Inr, of eng] assms Inr show ?thesis by auto
qed

text \<open>
  Claim C8, as amended. For every non-negative \<open>max_tokens\<close> below \<open>2 ^ 53\<close> that the
  analyzer returns, the system budget is \<open>max_tokens div 4\<close>, the floor of a quarter; the
  compression budget handed to progressive compression is \<open>max_tokens\<close> less the system
  budget; and the segment budget, which bounds segmentation and is passed to every
  engine call, is the compression budget halved by floor division.
\<close>

theorem budgets_below_2_53:
  assumes "an_parse_error_info an error_info = Inr (max_tokens, current_tokens)"
      and "0 \<le> max_tokens" and "max_tokens < 2 ^ 53"
  shows "int_of_times_ratio max_tokens = Inr (max_tokens div 4)
     \<and> overflow_try an eng now messages error_info =
         (if filter should_compress_message messages \<noteq> [] then
            (case progressive_compression eng (an_estimate_tokens an)
                    (filter should_compress_message messages)
                    (max_tokens - max_tokens div 4) of
               Inl e \<Rightarrow> Inl e
             | Inr (summary, calls) \<Rightarrow>
                 Inr (filter is_system_message messages
                        @ [build_compressed_message now summary]
                        @ filter is_protected_message messages))
          else Inr (filter is_system_message messages @ filter is_protected_message messages))
     \<and> (\<forall>summary calls.
           progressive_compression eng (an_estimate_tokens an)
               (filter should_compress_message messages) (max_tokens - max_tokens div 4)
             = Inr (summary, calls) \<longrightarrow>
           (\<exists>segments.
               split_into_segments (an_estimate_tokens an)
                   (filter should_compress_message messages)
                   ((max_tokens - max_tokens div 4) div 2) = Inr segments
             \<and> length calls = min (length segments) 3
             \<and> (\<forall>c\<in>set calls. snd (snd c) = (max_tokens - max_tokens div 4) div 2)))"
proof -
  have r: "int_of_times_ratio max_tokens = Inr (max_tokens div 4)"
    by (rule int_of_times_ratio_exact[OF assms(2,3)])
  from overflow_try_eq[OF assms(1) r] r progressive_compression_InrD
  show ?thesis by blast
qed

theorem budgets_below_2_53_witness:
  "an_parse_error_info TokenErrorAnalyzer ''garbled'' = Inr (4096, 5000)
   \<and> int_of_times_ratio 4096 = Inr 1024
   \<and> progressive_compression failing_engine (an_estimate_tokens TokenErrorAnalyzer)
        (filter should_compress_message conversation) 3072
       = Inr (''[user]: hello...'', [([], ''[user]: hello'', 1536)])"
proof -
  have p: "an_parse_error_info TokenErrorAnalyzer ''garbled'' = Inr (4096, 5000)"
    by code_simp
  have pc: "progressive_compression failing_engine (an_estimate_tokens TokenErrorAnalyzer)
        (filter should_compress_message conversation) 3072
       = Inr (''[user]: hello...'', [([], ''[user]: hello'', 1536)])"
    by code_simp
  from budgets_below_2_53[OF p, of failing_engine 0 conversation] p pc
  show ?thesis by simp
qed

text \<open>
  Claim C8 as stated fails for large limits: the product with the float \<open>0.25\<close> is
  computed on the double nearest to \<open>max_tokens\<close>. The analyzer reads
  \<open>9007199254740995\<close> (\<open>2 ^ 53 + 3\<close>) from an error text; the system budget computed is
  \<open>2251799813685249\<close>, the floor of a quarter is \<open>2251799813685248\<close>.
\<close>

theorem system_budget_double_rounding:
  "parse_error_info
     ''maximum context length is 9007199254740995 tokens, however you requested 9007199254740999 tokens''
     = Inr (9007199254740995, 9007199254740999)
   \<and> int_of_times_ratio 9007199254740995 = Inr 2251799813685249
   \<and> (9007199254740995 :: int) div 4 = 2251799813685248"
  by code_simp

section \<open>The entry point never raising\<close>

lemma emergency_fallback_text:
  assumes "last_user_has_text messages"
  shows "\<exists>out. emergency_fallback messages = Inr out \<and> out \<noteq> [] \<and> last_user_has_text out"
proof (cases "filter (\<lambda>msg. msg_role msg = Some ''user'') messages")
  case Nil
  then show ?thesis
    by (simp add: emergency_fallback_def Let_def last_user_has_text_def role_content_dict_def)
next
  case (Cons u us)
  with assms obtain c where c: "msg_content (last (u # us)) = Some (PyStr c)"
    by (auto simp: last_user_has_text_def split: option.splits pyval.splits)
  have "last (u # us) \<in> set (filter (\<lambda>msg. msg_role msg = Some ''user'') messages)"
    unfolding Cons by (rule last_in_set) simp
  then have r: "msg_role (last (u # us)) = Some ''user''" by simp
  have e: "emergency_fallback messages =
      Inr (filter (\<lambda>msg. msg_role msg = Some ''system'') messages
            @ [(last (u # us))\<lparr>msg_content := Some (PyStr (''[Emergency mode] '' @ c))\<rparr>])"
    using Cons c by (simp add: emergency_fallback_def Let_def)
  show ?thesis unfolding e using r
    by (simp add: last_user_has_text_def)
qed

lemma emergency_fallback_no_text:
  assumes "\<not> last_user_has_text messages"
  shows "\<exists>x. emergency_fallback messages = Inl x"
proof (cases "filter (\<lambda>msg. msg_role msg = Some ''user'') messages")
  case Nil
  with assms show ?thesis by (simp add: last_user_has_text_def)
next
  case (Cons u us)
  show ?thesis
  proof (cases "msg_content (last (u # us))")
    case None
    with Cons show ?thesis by (simp add: emergency_fallback_def Let_def del: last.simps)
  next
    case (Some v)
    with Cons assms show ?thesis
      by (cases v) (simp_all add: emergency_fallback_def last_user_has_text_def Let_def
                      del: last.simps)
  qed
qed

lemma protected_not_user: "is_protected_message m \<Longrightarrow> msg_role m \<noteq> Some ''user''"
  by (auto simp: is_protected_message_def should_compress_message_iff)

lemma system_not_user: "is_system_message m \<Longrightarrow> msg_role m \<noteq> Some ''user''"
  by (auto simp: is_system_message_def)

lemma filter_user_system: "filter (\<lambda>msg. msg_role msg = Some ''user'') (filter is_system_message ms) = []"
  by (auto simp: filter_empty_conv dest: system_not_user)

lemma filter_user_protected: "filter (\<lambda>msg. msg_role msg = Some ''user'') (filter is_protected_message ms) = []"
  by (auto simp: filter_empty_conv dest: protected_not_user)

lemma overflow_try_text:
  assumes "overflow_try an eng now messages error_info = Inr out"
  shows "last_user_has_text out \<and> (messages \<noteq> [] \<longrightarrow> out \<noteq> [])"
proof -
  from overflow_try_InrD[OF assms] obtain max_tokens current_tokens system_budget where
    p: "an_parse_error_info an error_info = Inr (max_tokens, current_tokens)"
    and b: "int_of_times_ratio max_tokens = Inr system_budget" by blast
  note eq = overflow_try_eq[OF p b, of eng now messages]
  show ?thesis
  proof (cases "filter should_compress_message messages = []")
    case True
    with eq assms have o: "out = filter is_system_message messages
                   @ filter is_protected_message messages" by simp
    have "messages \<noteq> [] \<longrightarrow> out \<noteq> []"
    proof
      assume "messages \<noteq> []"
      then obtain m where m: "m \<in> set messages" by (cases messages) auto
      with True have "\<not> should_compress_message m" by (auto simp: filter_empty_conv)
      then have "is_system_message m \<or> is_protected_message m"
        by (auto simp: is_protected_message_def)
      with m show "out \<noteq> []" unfolding o by (auto simp: filter_empty_conv)
    qed
    then show ?thesis unfolding o
      by (simp add: last_user_has_text_def filter_user_system filter_user_protected
            del: filter_filter)
  next
    case False
    with eq assms obtain summary calls where
      o: "out = filter is_system_message messages @ [build_compressed_message now summary]
                    @ filter is_protected_message messages"
      by (auto split: sum.splits)
    show ?thesis unfolding o
      by (simp add: last_user_has_text_def filter_user_system filter_user_protected
            build_compressed_message_def del: filter_filter)
  qed
qed

lemma handle_token_overflow_text:
  assumes "last_user_has_text messages"
  shows "\<exists>out. handle_token_overflow an eng now messages error_info = Inr out
           \<and> (messages \<noteq> [] \<longrightarrow> out \<noteq> [])"
proof (cases "overflow_try an eng now messages error_info")
  case (Inl e)
  with emergency_fallback_text[OF assms] show ?thesis
    by (auto simp: handle_token_overflow_def)
next
  case (Inr out)
  with overflow_try_text[OF Inr] show ?thesis
    by (simp add: handle_token_overflow_def)
qed

lemma handle_token_overflow_result_text:
  assumes "handle_token_overflow an eng now messages error_info = Inr out"
  shows "last_user_has_text out"
proof (cases "overflow_try an eng now messages error_info")
  case (Inl e)
  with assms have e: "emergency_fallback messages = Inr out"
    by (simp add: handle_token_overflow_def)
  show ?thesis
  proof (cases "last_user_has_text messages")
    case True
    from emergency_fallback_text[OF True] e show ?thesis by auto
  next
    case False
    from emergency_fallback_no_text[OF False] e show ?thesis by auto
  qed
next
  case (Inr out')
  with assms have "out' = out" by (simp add: handle_token_overflow_def)
  with overflow_try_text[OF Inr] show ?thesis by simp
qed

text \<open>
  Claim C1, as amended. Whatever the analyzer and the engine do (a pattern miss, a
  failing model call, a round that raises, an analyzer that raises), for every error
  text and every message list whose last user message, if there is one, has a string
  content, \<open>handle_token_overflow\<close> returns a message list, and the list is non-empty
  when the input is. Every list it returns again has that form, so applying
  \<open>handle_token_overflow\<close> to a list it returned, with its compression markers, returns
  again, with any analyzer, engine, clock and error text.
\<close>

theorem handle_token_overflow_returns:
  "(last_user_has_text messages \<longrightarrow>
      (\<exists>out. handle_token_overflow an eng now messages error_info = Inr out
            \<and> (messages \<noteq> [] \<longrightarrow> out \<noteq> [])))
   \<and> (\<forall>out. handle_token_overflow an eng now messages error_info = Inr out \<longrightarrow>
        last_user_has_text out
      \<and> (\<forall>an' eng' now' error_info'.
            \<exists>out'. handle_token_overflow an' eng' now' out error_info' = Inr out'
                  \<and> (out \<noteq> [] \<longrightarrow> out' \<noteq> [])))"
  using handle_token_overflow_text handle_token_overflow_result_text by blast

theorem handle_token_overflow_returns_witness:
  "last_user_has_text conversation
   \<and> conversation \<noteq> []
   \<and> handle_token_overflow raising_analyzer failing_engine 0 conversation ''token limit''
       = Inr [role_content_dict ''system'' ''You are an agent.'',
              role_content_dict ''user'' ''[Emergency mode] hello'']
   \<and> (\<exists>out'. handle_token_overflow TokenErrorAnalyzer failing_engine 0
                 [role_content_dict ''system'' ''You are an agent.'',
                  role_content_dict ''user'' ''[Emergency mode] hello''] ''token limit''
               = Inr out' \<and> out' \<noteq> [])"
proof -
  have t: "last_user_has_text conversation" by code_simp
  have n: "conversation \<noteq> []" by (simp add: conversation_def)
  have h: "handle_token_overflow raising_analyzer failing_engine 0 conversation ''token limit''
       = Inr [role_content_dict ''system'' ''You are an agent.'',
              role_content_dict ''user'' ''[Emergency mode] hello'']"
    by code_simp
  from handle_token_overflow_returns[of conversation raising_analyzer failing_engine 0
         "''token limit''"] h
  have "\<exists>out'. handle_token_overflow TokenErrorAnalyzer failing_engine 0
                 [role_content_dict ''system'' ''You are an agent.'',
                  role_content_dict ''user'' ''[Emergency mode] hello''] ''token limit''
               = Inr out' \<and> out' \<noteq> []"
    by auto
  with t n h show ?thesis by blast
qed

text \<open>
  Claim C1 as stated fails for the empty message list: with the shipped analyzer and an
  error text without numbers the call returns, and the list returned is empty.
\<close>

theorem empty_input_empty_output:
  "handle_token_overflow TokenErrorAnalyzer failing_engine 0 [] [] = Inr []"
  by code_simp

text \<open>
  What the emergency path returns, case by case: the placeholder when the input has no
  user message, the prefixed copy of the last user message when its content is a
  string, and the \<^verbatim>\<open>KeyError\<close> when it has no content.
\<close>

lemma emergency_fallback_output:
  assumes "overflow_try an eng now messages error_info = Inl e"
  shows "(filter (\<lambda>msg. msg_role msg = Some ''user'') messages = [] \<longrightarrow>
            handle_token_overflow an eng now messages error_info =
              Inr (filter is_system_message messages
                     @ [role_content_dict ''user''
                          ''[Emergency mode] Please assist with current task.'']))
       \<and> (\<forall>c. filter (\<lambda>msg. msg_role msg = Some ''user'') messages \<noteq> []
              \<and> msg_content (last (filter (\<lambda>msg. msg_role msg = Some ''user'') messages))
                  = Some (PyStr c) \<longrightarrow>
            handle_token_overflow an eng now messages error_info =
              Inr (filter is_system_message messages
                     @ [(last (filter (\<lambda>msg. msg_role msg = Some ''user'') messages))
                          \<lparr>msg_content := Some (PyStr (''[Emergency mode] '' @ c))\<rparr>]))
       \<and> (filter (\<lambda>msg. msg_role msg = Some ''user'') messages \<noteq> []
              \<and> msg_content (last (filter (\<lambda>msg. msg_role msg = Some ''user'') messages)) = None
            \<longrightarrow> handle_token_overflow an eng now messages error_info = Inl (KeyError ''content''))"
proof -
  have s: "filter (\<lambda>msg. msg_role msg = Some ''system'') messages
             = filter is_system_message messages"
    by (induction messages) (simp_all add: is_system_message_def)
  have h: "handle_token_overflow an eng now messages error_info = emergency_fallback messages"
    using assms by (simp add: handle_token_overflow_def)
  show ?thesis unfolding h
    by (simp add: emergency_fallback_def Let_def s)
qed

text \<open>
  Claim C3. The fallback indexes \<^verbatim>\<open>last_user_msg["content"]\<close>, so it raises
  \<^verbatim>\<open>KeyError\<close> on a last user message without that key. With a failure injected into
  segmentation (the estimator raises), \<open>handle_token_overflow\<close> on the single message
  \<^verbatim>\<open>{"role": "user"}\<close> raises \<^verbatim>\<open>KeyError\<close> to its caller.
\<close>

theorem emergency_fallback_key_error:
  "overflow_try raising_analyzer failing_engine 0 [user_message_without_content]
       ''context length exceeded''
     = Inl (Failure ''injected failure'')
   \<and> handle_token_overflow raising_analyzer failing_engine 0 [user_message_without_content]
       ''context length exceeded''
     = Inl (KeyError ''content'')"
  by code_simp

text \<open>
  The same with the shipped analyzer and engine: an error text with a number of 4301
  digits makes \<open>parse_error_info\<close> raise inside the \<^verbatim>\<open>try\<close> block, and the fallback
  raises \<^verbatim>\<open>KeyError\<close> on the user message without content.
\<close>

lemma emergency_fallback_key_error_long_number:
  "handle_token_overflow TokenErrorAnalyzer failing_engine now [user_message_without_content]
       (''maximum context length is '' @ replicate 4301 CHR ''1'' @ '' tokens 1 tokens'')
     = Inl (KeyError ''content'')"
proof -
  have p: "parse_error_info
      (''maximum context length is '' @ replicate 4301 CHR ''1'' @ '' tokens 1 tokens'')
     = Inl ValueError"
    using parse_error_info_Some[OF long_number_groups] by simp
  have a: "an_parse_error_info TokenErrorAnalyzer = parse_error_info"
    by (simp add: TokenErrorAnalyzer_def)
  have t: "overflow_try TokenErrorAnalyzer failing_engine now [user_message_without_content]
       (''maximum context length is '' @ replicate 4301 CHR ''1'' @ '' tokens 1 tokens'')
     = Inl ValueError"
    unfolding overflow_try_def a p by simp
  have e: "emergency_fallback [user_message_without_content] = Inl (KeyError ''content'')"
    by (simp add: emergency_fallback_def user_message_without_content_def)
  show ?thesis unfolding handle_token_overflow_def t e by simp
qed

section \<open>The store: what the service writes\<close>

lemma separate_loop_st_filter:
  "separate_loop_st h msgs (s, c, p) =
     (s @ filter (\<lambda>r. is_system_message (h ! r)) msgs,
      c @ filter (\<lambda>r. should_compress_message (h ! r)) msgs,
      p @ filter (\<lambda>r. is_protected_message (h ! r)) msgs)"
proof (induction msgs arbitrary: s c p)
  case Nil
  then show ?case by simp
next
  case (Cons m msgs)
  show ?case
  proof (cases "is_system_message (h ! m)")
    case True
    then have "\<not> should_compress_message (h ! m)" using should_compress_not_system by blast
    with True Cons show ?thesis
      by (simp add: role_system_iff is_protected_message_def)
  next
    case False
    with Cons show ?thesis
      by (simp add: role_system_iff is_protected_message_def)
  qed
qed

lemma filter_map_nth:
  "filter P (map ((!) h) rs) = map ((!) h) (filter (\<lambda>r. P (h ! r)) rs)"
  by (induction rs) auto

lemma map_nth_append_old:
  "\<forall>r\<in>set rs. r < length h \<Longrightarrow> map ((!) (h @ xs)) rs = map ((!) h) rs"
  by (induction rs) (auto simp: nth_append)

lemma filter_filter_none: "(\<And>x. P x \<Longrightarrow> \<not> Q x) \<Longrightarrow> filter Q (filter P xs) = []"
  by (induction xs) auto

lemma filter_filter_absorb: "(\<And>x. Q x \<Longrightarrow> P x) \<Longrightarrow> filter Q (filter P xs) = filter Q xs"
  by (induction xs) auto

lemma filter_protected_assembled:
  "filter (\<lambda>r. r < length h \<and> is_protected_message (h ! r))
      (filter (\<lambda>r. is_system_message (h ! r)) messages @ new
         @ filter (\<lambda>r. is_protected_message (h ! r)) messages)
   = filter (\<lambda>r. r < length h \<and> is_protected_message (h ! r)) new
       @ filter (\<lambda>r. r < length h \<and> is_protected_message (h ! r)) messages"
proof -
  have a: "filter (\<lambda>r. r < length h \<and> is_protected_message (h ! r))
             (filter (\<lambda>r. is_system_message (h ! r)) messages) = []"
    by (rule filter_filter_none) (simp add: is_protected_message_def)
  have b: "filter (\<lambda>r. r < length h \<and> is_protected_message (h ! r))
             (filter (\<lambda>r. is_protected_message (h ! r)) messages)
           = filter (\<lambda>r. r < length h \<and> is_protected_message (h ! r)) messages"
    by (rule filter_filter_absorb) simp
  show ?thesis by (simp add: a b del: filter_filter)
qed


lemma overflow_try_st_eq:
  assumes "an_parse_error_info an error_info = Inr (max_tokens, current_tokens)"
      and "int_of_times_ratio max_tokens = Inr system_budget"
  shows "overflow_try_st an eng now h messages error_info =
     (if filter (\<lambda>r. should_compress_message (h ! r)) messages \<noteq> [] then
        (case progressive_compression eng (an_estimate_tokens an)
                (map ((!) h) (filter (\<lambda>r. should_compress_message (h ! r)) messages))
                (max_tokens - system_budget) of
           Inl e \<Rightarrow> (h, Inl e)
         | Inr (summary, calls) \<Rightarrow>
             (h @ [build_compressed_message now summary],
              Inr (filter (\<lambda>r. is_system_message (h ! r)) messages @ [length h]
                    @ filter (\<lambda>r. is_protected_message (h ! r)) messages)))
      else (h, Inr (filter (\<lambda>r. is_system_message (h ! r)) messages
                    @ filter (\<lambda>r. is_protected_message (h ! r)) messages)))"
  using assms
  by (simp add: overflow_try_st_def separate_loop_st_filter alloc_def Let_def
        split: sum.splits prod.splits)

lemma overflow_try_st_Inl:
  "overflow_try_st an eng now h messages error_info = (h1, Inl e) \<Longrightarrow> h1 = h"
  by (auto simp: overflow_try_st_def alloc_def Let_def split: sum.splits prod.splits if_splits)

lemma overflow_try_st_frame:
  assumes "overflow_try_st an eng now h messages error_info = (h1, res)"
  shows "length h \<le> length h1 \<and> take (length h) h1 = h
       \<and> (\<forall>out. res = Inr out \<longrightarrow>
             (\<forall>r\<in>set out. r \<in> set messages \<or> (length h \<le> r \<and> r < length h1))
           \<and> filter (\<lambda>r. r < length h \<and> is_protected_message (h ! r)) out
               = filter (\<lambda>r. r < length h \<and> is_protected_message (h ! r)) messages)"
proof (cases "an_parse_error_info an error_info")
  case (Inl e)
  with assms show ?thesis by (auto simp: overflow_try_st_def)
next
  case (Inr pr)
  obtain max_tokens current_tokens where pr: "pr = (max_tokens, current_tokens)" by (cases pr)
  show ?thesis
  proof (cases "int_of_times_ratio max_tokens")
    case (Inl e)
    with assms Inr pr show ?thesis by (auto simp: overflow_try_st_def)
  next
    case b: (Inr system_budget)
    note eq = overflow_try_st_eq[OF Inr[unfolded pr] b, of eng now h messages]
    have np: "is_system_message m \<Longrightarrow> \<not> is_protected_message m" for m
      by (simp add: is_protected_message_def)
    show ?thesis
    proof (cases "filter (\<lambda>r. should_compress_message (h ! r)) messages = []")
      case True
      with eq assms have h1: "h1 = h" and res: "res = Inr (filter (\<lambda>r. is_system_message (h ! r)) messages
                    @ filter (\<lambda>r. is_protected_message (h ! r)) messages)" by auto
      have "filter (\<lambda>r. r < length h \<and> is_protected_message (h ! r))
              (filter (\<lambda>r. is_system_message (h ! r)) messages
                    @ filter (\<lambda>r. is_protected_message (h ! r)) messages)
            = filter (\<lambda>r. r < length h \<and> is_protected_message (h ! r)) messages"
        using filter_protected_assembled[of h messages "[]"] by simp
      then show ?thesis unfolding h1 res by auto
    next
      case False
      show ?thesis
      proof (cases "progressive_compression eng (an_estimate_tokens an)
                (map ((!) h) (filter (\<lambda>r. should_compress_message (h ! r)) messages))
                (max_tokens - system_budget)")
        case (Inl e)
        with eq assms False show ?thesis by auto
      next
        case (Inr sc)
        obtain summary calls where sc: "sc = (summary, calls)" by (cases sc)
        from eq assms False Inr sc have h1: "h1 = h @ [build_compressed_message now summary]"
          and res: "res = Inr (filter (\<lambda>r. is_system_message (h ! r)) messages @ [length h]
                    @ filter (\<lambda>r. is_protected_message (h ! r)) messages)" by auto
        have "filter (\<lambda>r. r < length h \<and> is_protected_message (h ! r))
              (filter (\<lambda>r. is_system_message (h ! r)) messages @ [length h]
                    @ filter (\<lambda>r. is_protected_message (h ! r)) messages)
            = filter (\<lambda>r. r < length h \<and> is_protected_message (h ! r)) messages"
          using filter_protected_assembled[of h messages "[length h]"] by simp
        then show ?thesis unfolding h1 res by auto
      qed
    qed
  qed
qed

lemma emergency_fallback_st_frame:
  assumes "emergency_fallback_st h messages = (h1, res)"
  shows "length h \<le> length h1 \<and> take (length h) h1 = h
       \<and> (\<forall>out. res = Inr out \<longrightarrow>
             (\<forall>r\<in>set out. r \<in> set messages \<or> (length h \<le> r \<and> r < length h1)))"
  using assms
  by (auto simp: emergency_fallback_st_def alloc_def Let_def
        split: if_splits option.splits pyval.splits)

lemma overflow_try_st_refines:
  assumes valid: "\<forall>r\<in>set messages. r < length h"
      and st: "overflow_try_st an eng now h messages error_info = (h1, res)"
  shows "overflow_try an eng now (map ((!) h) messages) error_info
           = map_sum id (map ((!) h1)) res"
proof (cases "an_parse_error_info an error_info")
  case (Inl e)
  with st show ?thesis by (auto simp: overflow_try_st_def overflow_try_def)
next
  case (Inr pr)
  obtain max_tokens current_tokens where pr: "pr = (max_tokens, current_tokens)" by (cases pr)
  show ?thesis
  proof (cases "int_of_times_ratio max_tokens")
    case (Inl e)
    with st Inr pr show ?thesis by (auto simp: overflow_try_st_def overflow_try_def)
  next
    case b: (Inr system_budget)
    note eq_st = overflow_try_st_eq[OF Inr[unfolded pr] b, of eng now h messages]
    note eq = overflow_try_eq[OF Inr[unfolded pr] b, of eng now "map ((!) h) messages"]
    have vs: "\<forall>r\<in>set (filter (\<lambda>r. is_system_message (h ! r)) messages). r < length h"
      and vp: "\<forall>r\<in>set (filter (\<lambda>r. is_protected_message (h ! r)) messages). r < length h"
      using valid by auto
    show ?thesis
    proof (cases "filter (\<lambda>r. should_compress_message (h ! r)) messages = []")
      case True
      with eq_st st have "h1 = h" and "res = Inr (filter (\<lambda>r. is_system_message (h ! r)) messages
                    @ filter (\<lambda>r. is_protected_message (h ! r)) messages)" by auto
      with True show ?thesis unfolding eq by (simp add: filter_map_nth)
    next
      case False
      show ?thesis
      proof (cases "progressive_compression eng (an_estimate_tokens an)
                (map ((!) h) (filter (\<lambda>r. should_compress_message (h ! r)) messages))
                (max_tokens - system_budget)")
        case (Inl e)
        with eq_st st False have "res = Inl e" by auto
        with False Inl show ?thesis unfolding eq by (simp add: filter_map_nth)
      next
        case (Inr sc)
        obtain summary calls where sc: "sc = (summary, calls)" by (cases sc)
        from eq_st st False Inr sc have h1: "h1 = h @ [build_compressed_message now summary]"
          and res: "res = Inr (filter (\<lambda>r. is_system_message (h ! r)) messages @ [length h]
                    @ filter (\<lambda>r. is_protected_message (h ! r)) messages)" by auto
        show ?thesis unfolding eq h1 res using False Inr sc
          by (simp add: filter_map_nth map_nth_append_old[OF vs] map_nth_append_old[OF vp])
      qed
    qed
  qed
qed

lemma emergency_fallback_st_cases:
  assumes valid: "\<forall>r\<in>set messages. r < length h"
  shows "emergency_fallback_st h messages =
     (let us = filter (\<lambda>r. msg_role (h ! r) = Some ''user'') messages;
          sys = filter (\<lambda>r. msg_role (h ! r) = Some ''system'') messages
      in if us \<noteq> [] then
           (case msg_content (h ! last us) of
              None \<Rightarrow> (h @ [h ! last us], Inl (KeyError ''content''))
            | Some (PyStr c) \<Rightarrow>
                (h @ [(h ! last us)\<lparr>msg_content := Some (PyStr (''[Emergency mode] '' @ c))\<rparr>],
                 Inr (sys @ [length h]))
            | Some _ \<Rightarrow> (h @ [h ! last us], Inl TypeError))
         else (h @ [role_content_dict ''user''
                      ''[Emergency mode] Please assist with current task.''],
               Inr (sys @ [length h])))"
  by (simp add: emergency_fallback_st_def alloc_def Let_def
        split: option.splits pyval.splits)

lemma emergency_fallback_st_refines:
  assumes valid: "\<forall>r\<in>set messages. r < length h"
      and st: "emergency_fallback_st h messages = (h1, res)"
  shows "emergency_fallback (map ((!) h) messages) = map_sum id (map ((!) h1)) res"
proof -
  let ?us = "filter (\<lambda>r. msg_role (h ! r) = Some ''user'') messages"
  let ?sys = "filter (\<lambda>r. msg_role (h ! r) = Some ''system'') messages"
  have vs: "\<forall>r\<in>set ?sys. r < length h" using valid by auto
  have fu: "filter (\<lambda>msg. msg_role msg = Some ''user'') (map ((!) h) messages) = map ((!) h) ?us"
    by (rule filter_map_nth)
  have fs: "filter (\<lambda>msg. msg_role msg = Some ''system'') (map ((!) h) messages) = map ((!) h) ?sys"
    by (rule filter_map_nth)
  show ?thesis
  proof (cases "?us = []")
    case True
    with st have "h1 = h @ [role_content_dict ''user''
                      ''[Emergency mode] Please assist with current task.'']"
      and "res = Inr (?sys @ [length h])"
      by (auto simp: emergency_fallback_st_cases[OF valid] Let_def)
    with True show ?thesis
      by (simp add: emergency_fallback_def fu fs Let_def map_nth_append_old[OF vs])
  next
    case False
    then have l: "last (map ((!) h) ?us) = h ! last ?us" by (simp add: last_map)
    show ?thesis
    proof (cases "msg_content (h ! last ?us)")
      case None
      with st False have "res = Inl (KeyError ''content'')"
        by (auto simp: emergency_fallback_st_cases[OF valid] Let_def)
      with False None show ?thesis
        by (simp add: emergency_fallback_def fu fs Let_def l)
    next
      case (Some v)
      show ?thesis
      proof (cases v)
        case (PyStr c)
        with st False Some have
          "h1 = h @ [(h ! last ?us)\<lparr>msg_content := Some (PyStr (''[Emergency mode] '' @ c))\<rparr>]"
          and "res = Inr (?sys @ [length h])"
          by (auto simp: emergency_fallback_st_cases[OF valid] Let_def)
        with False Some PyStr show ?thesis
          by (simp add: emergency_fallback_def fu fs Let_def l map_nth_append_old[OF vs])
      next
        case PyNone
        with st False Some have "res = Inl TypeError"
          by (auto simp: emergency_fallback_st_cases[OF valid] Let_def)
        with False Some PyNone show ?thesis
          by (simp add: emergency_fallback_def fu fs Let_def l)
      next
        case (PyBool x)
        with st False Some have "res = Inl TypeError"
          by (auto simp: emergency_fallback_st_cases[OF valid] Let_def)
        with False Some PyBool show ?thesis
          by (simp add: emergency_fallback_def fu fs Let_def l)
      next
        case (PyInt x)
        with st False Some have "res = Inl TypeError"
          by (auto simp: emergency_fallback_st_cases[OF valid] Let_def)
        with False Some PyInt show ?thesis
          by (simp add: emergency_fallback_def fu fs Let_def l)
      qed
    qed
  qed
qed

lemma emergency_fallback_st_copy:
  assumes valid: "\<forall>r\<in>set messages. r < length h"
      and st: "emergency_fallback_st h messages = (h1, Inr out)"
      and us: "filter (\<lambda>r. msg_role (h ! r) = Some ''user'') messages \<noteq> []"
  shows "last out = length h
       \<and> (\<exists>c. msg_content (h ! last (filter (\<lambda>r. msg_role (h ! r) = Some ''user'') messages))
                 = Some (PyStr c)
              \<and> h1 ! length h
                  = (h ! last (filter (\<lambda>r. msg_role (h ! r) = Some ''user'') messages))
                      \<lparr>msg_content := Some (PyStr (''[Emergency mode] '' @ c))\<rparr>)"
  using st us
  by (auto simp: emergency_fallback_st_cases[OF valid] Let_def
        split: option.splits pyval.splits)

text \<open>
  Claim C9. Let the input list hold references into the store. Whatever
  \<open>handle_token_overflow\<close> does, also when it raises, every dictionary that existed
  before the call is the same after it: the service only allocates. The dictionaries
  its result refers to are those of the value-level \<open>handle_token_overflow\<close> on the
  dictionaries of the input. Every reference of the output is a reference of the input
  or a dictionary allocated during the call (the synthetic message, the placeholder, or
  the copy of the last user message). On the normal path the protected references of
  the output are those of the input in their order. On the emergency path with a user
  message, the last output reference is the fresh copy, which carries the prefixed
  content, while the last user message itself is as it was.
\<close>

theorem handle_token_overflow_st_frame:
  assumes "\<forall>r\<in>set messages. r < length h"
      and "handle_token_overflow_st an eng now h messages error_info = (h1, res)"
  shows "length h \<le> length h1
       \<and> (\<forall>r<length h. h1 ! r = h ! r)
       \<and> handle_token_overflow an eng now (map ((!) h) messages) error_info
           = map_sum id (map ((!) h1)) res
       \<and> (\<forall>out. res = Inr out \<longrightarrow>
             (\<forall>r\<in>set out. r < length h1 \<and> (r \<in> set messages \<or> length h \<le> r)))
       \<and> (\<forall>out. overflow_try_st an eng now h messages error_info = (h1, Inr out) \<longrightarrow>
             filter (\<lambda>r. r < length h \<and> is_protected_message (h ! r)) out
               = filter (\<lambda>r. is_protected_message (h ! r)) messages)
       \<and> (\<forall>e out.
             overflow_try_st an eng now h messages error_info = (h, Inl e) \<and> res = Inr out
             \<and> filter (\<lambda>r. msg_role (h ! r) = Some ''user'') messages \<noteq> [] \<longrightarrow>
               last out = length h
             \<and> h1 ! last (filter (\<lambda>r. msg_role (h ! r) = Some ''user'') messages)
                 = h ! last (filter (\<lambda>r. msg_role (h ! r) = Some ''user'') messages)
             \<and> (\<exists>c. msg_content (h ! last (filter (\<lambda>r. msg_role (h ! r) = Some ''user'') messages))
                       = Some (PyStr c)
                    \<and> h1 ! length h
                        = (h ! last (filter (\<lambda>r. msg_role (h ! r) = Some ''user'') messages))
                            \<lparr>msg_content := Some (PyStr (''[Emergency mode] '' @ c))\<rparr>))"
proof -
  note valid = assms(1)
  obtain h0 res0 where t: "overflow_try_st an eng now h messages error_info = (h0, res0)"
    by (cases "overflow_try_st an eng now h messages error_info")
  note tf = overflow_try_st_frame[OF t]
  note tr = overflow_try_st_refines[OF valid t]
  have fv: "filter (\<lambda>r. r < length h \<and> is_protected_message (h ! r)) messages
              = filter (\<lambda>r. is_protected_message (h ! r)) messages"
    using valid by (auto intro: filter_cong)
  show ?thesis
  proof (cases res0)
    case (Inr out0)
    with t assms(2) have h1: "h1 = h0" and res: "res = Inr out0"
      by (simp_all add: handle_token_overflow_st_def)
    have a: "length h \<le> length h1" using tf h1 by simp
    have b: "\<forall>r<length h. h1 ! r = h ! r"
    proof (intro allI impI)
      fix r assume "r < length h"
      then have "take (length h) h1 ! r = h1 ! r" by simp
      with tf h1 show "h1 ! r = h ! r" by simp
    qed
    have c: "handle_token_overflow an eng now (map ((!) h) messages) error_info
           = map_sum id (map ((!) h1)) res"
      using tr Inr h1 res by (simp add: handle_token_overflow_def)
    have d: "\<forall>out. res = Inr out \<longrightarrow>
             (\<forall>r\<in>set out. r < length h1 \<and> (r \<in> set messages \<or> length h \<le> r))"
      using tf Inr h1 res valid a by fastforce
    have e: "\<forall>out. overflow_try_st an eng now h messages error_info = (h1, Inr out) \<longrightarrow>
             filter (\<lambda>r. r < length h \<and> is_protected_message (h ! r)) out
               = filter (\<lambda>r. is_protected_message (h ! r)) messages"
      using tf t fv by auto
    have f: "\<forall>e out.
             overflow_try_st an eng now h messages error_info = (h, Inl e) \<and> res = Inr out
             \<and> filter (\<lambda>r. msg_role (h ! r) = Some ''user'') messages \<noteq> [] \<longrightarrow>
               last out = length h
             \<and> h1 ! last (filter (\<lambda>r. msg_role (h ! r) = Some ''user'') messages)
                 = h ! last (filter (\<lambda>r. msg_role (h ! r) = Some ''user'') messages)
             \<and> (\<exists>c. msg_content (h ! last (filter (\<lambda>r. msg_role (h ! r) = Some ''user'') messages))
                       = Some (PyStr c)
                    \<and> h1 ! length h
                        = (h ! last (filter (\<lambda>r. msg_role (h ! r) = Some ''user'') messages))
                            \<lparr>msg_content := Some (PyStr (''[Emergency mode] '' @ c))\<rparr>)"
      using t Inr by simp
    from a b c d e f show ?thesis by blast
  next
    case (Inl e0)
    with t have h0: "h0 = h" using overflow_try_st_Inl by blast
    from t Inl h0 assms(2) have ef: "emergency_fallback_st h messages = (h1, res)"
      by (simp add: handle_token_overflow_st_def)
    note ff = emergency_fallback_st_frame[OF ef]
    note fr = emergency_fallback_st_refines[OF valid ef]
    have a: "length h \<le> length h1" using ff by simp
    have b: "\<forall>r<length h. h1 ! r = h ! r"
    proof (intro allI impI)
      fix r assume "r < length h"
      then have "take (length h) h1 ! r = h1 ! r" by simp
      with ff show "h1 ! r = h ! r" by simp
    qed
    have c: "handle_token_overflow an eng now (map ((!) h) messages) error_info
           = map_sum id (map ((!) h1)) res"
      using tr Inl fr by (simp add: handle_token_overflow_def)
    have d: "\<forall>out. res = Inr out \<longrightarrow>
             (\<forall>r\<in>set out. r < length h1 \<and> (r \<in> set messages \<or> length h \<le> r))"
      using ff valid a by fastforce
    have e: "\<forall>out. overflow_try_st an eng now h messages error_info = (h1, Inr out) \<longrightarrow>
             filter (\<lambda>r. r < length h \<and> is_protected_message (h ! r)) out
               = filter (\<lambda>r. is_protected_message (h ! r)) messages"
      using t Inl by simp
    have f: "\<forall>e out.
             overflow_try_st an eng now h messages error_info = (h, Inl e) \<and> res = Inr out
             \<and> filter (\<lambda>r. msg_role (h ! r) = Some ''user'') messages \<noteq> [] \<longrightarrow>
               last out = length h
             \<and> h1 ! last (filter (\<lambda>r. msg_role (h ! r) = Some ''user'') messages)
                 = h ! last (filter (\<lambda>r. msg_role (h ! r) = Some ''user'') messages)
             \<and> (\<exists>c. msg_content (h ! last (filter (\<lambda>r. msg_role (h ! r) = Some ''user'') messages))
                       = Some (PyStr c)
                    \<and> h1 ! length h
                        = (h ! last (filter (\<lambda>r. msg_role (h ! r) = Some ''user'') messages))
                            \<lparr>msg_content := Some (PyStr (''[Emergency mode] '' @ c))\<rparr>)"
    proof (intro allI impI)
      fix e out
      assume p: "overflow_try_st an eng now h messages error_info = (h, Inl e) \<and> res = Inr out
             \<and> filter (\<lambda>r. msg_role (h ! r) = Some ''user'') messages \<noteq> []"
      let ?u = "last (filter (\<lambda>r. msg_role (h ! r) = Some ''user'') messages)"
      from p have "?u \<in> set (filter (\<lambda>r. msg_role (h ! r) = Some ''user'') messages)"
        by (intro last_in_set) simp
      then have "?u < length h" using valid by simp
      with b have u: "h1 ! ?u = h ! ?u" by simp
      from p ef have "emergency_fallback_st h messages = (h1, Inr out)" by simp
      from emergency_fallback_st_copy[OF valid this] p u
      show "last out = length h \<and> h1 ! ?u = h ! ?u
             \<and> (\<exists>c. msg_content (h ! ?u) = Some (PyStr c)
                    \<and> h1 ! length h
                        = (h ! ?u)\<lparr>msg_content := Some (PyStr (''[Emergency mode] '' @ c))\<rparr>)"
        by simp
    qed
    from a b c d e f show ?thesis by blast
  qed
qed

theorem handle_token_overflow_st_frame_witness:
  "handle_token_overflow_st raising_analyzer failing_engine 0 conversation [0, 1, 2]
       ''token limit''
     = (conversation @ [role_content_dict ''user'' ''[Emergency mode] hello''], Inr [0, 3])
   \<and> (conversation @ [role_content_dict ''user'' ''[Emergency mode] hello'']) ! 1
       = conversation ! 1
   \<and> conversation ! 1 = role_content_dict ''user'' ''hello''"
proof -
  have v: "\<forall>r\<in>set [0, 1, 2]. r < length conversation"
    by (simp add: conversation_def)
  have h: "handle_token_overflow_st raising_analyzer failing_engine 0 conversation [0, 1, 2]
       ''token limit''
     = (conversation @ [role_content_dict ''user'' ''[Emergency mode] hello''], Inr [0, 3])"
    by code_simp
  have c: "conversation ! 1 = role_content_dict ''user'' ''hello''"
    by (simp add: conversation_def)
  have l: "(1::nat) < length conversation" by (simp add: conversation_def)
  from handle_token_overflow_st_frame[OF v h] l
  have "(conversation @ [role_content_dict ''user'' ''[Emergency mode] hello'']) ! 1
       = conversation ! 1" by blast
  with h c show ?thesis by blast
qed

end
